theory Spec2Isabelle
  imports Main "HOL-Library.Word"
begin

section \<open>JavaScript strings\<close>

text \<open>
  A JavaScript string is a sequence of UTF-16 code units. A code unit is modelled as a
  natural number, a string as the list of its code units. \<open>js\<close> turns an ASCII literal of
  the source into that representation.
\<close>

type_synonym jsstring = "nat list"

definition js :: "string \<Rightarrow> jsstring" where
  "js s = map of_char s"

text \<open>
  \<open>String.prototype.trim\<close> removes the code points of WhiteSpace and LineTerminator
  (ECMA-262) from both ends: TAB, LF, VT, FF, CR, SP, NBSP, the Unicode space separators,
  LS, PS and the byte order mark.
\<close>

definition is_js_whitespace :: "nat \<Rightarrow> bool" where
  "is_js_whitespace c \<longleftrightarrow>
     c \<in> {0x09, 0x0A, 0x0B, 0x0C, 0x0D, 0x20, 0xA0, 0x1680, 0x2028, 0x2029, 0x202F,
          0x205F, 0x3000, 0xFEFF}
     \<or> (0x2000 \<le> c \<and> c \<le> 0x200A)"

definition trim :: "jsstring \<Rightarrow> jsstring" where
  "trim s = rev (dropWhile is_js_whitespace (rev (dropWhile is_js_whitespace s)))"

fun strip_prefix :: "'a list \<Rightarrow> 'a list \<Rightarrow> 'a list option" where
  "strip_prefix [] s = Some s"
| "strip_prefix (p # ps) [] = None"
| "strip_prefix (p # ps) (c # cs) = (if p = c then strip_prefix ps cs else None)"

definition strip_suffix :: "'a list \<Rightarrow> 'a list \<Rightarrow> 'a list option" where
  "strip_suffix p s = map_option rev (strip_prefix (rev p) (rev s))"

section \<open>JSON.parse\<close>

text \<open>
  \<open>JSON.parse\<close> is a built-in of the language, so it is modelled from its definition
  (ECMA-262, JSON.parse; ECMA-404): a lexical grammar of tokens separated by the four
  JSON white space characters, and a syntactic grammar of values over the tokens. A text
  that is not a JSON text makes \<open>JSON.parse\<close> throw a SyntaxError: the model returns
  \<open>None\<close>. A number keeps the text of its literal (the double it denotes is not
  modelled). An object is the list of its properties in creation order; a repeated key
  overwrites the value of the property created first. (The order in which JavaScript
  enumerates the properties, integer-like keys first, is not modelled.)
\<close>

datatype json =
    JNull
  | JBool bool
  | JNumber jsstring
  | JString jsstring
  | JArray "json list"
  | JObject "(jsstring \<times> json) list"

datatype token =
    TLBrace | TRBrace | TLBracket | TRBracket | TColon | TComma
  | TNull | TTrue | TFalse
  | TString jsstring
  | TNumber jsstring

definition is_json_ws :: "nat \<Rightarrow> bool" where
  "is_json_ws c \<longleftrightarrow> c = 0x09 \<or> c = 0x0A \<or> c = 0x0D \<or> c = 0x20"

definition is_digit :: "nat \<Rightarrow> bool" where
  "is_digit c \<longleftrightarrow> 0x30 \<le> c \<and> c \<le> 0x39"

definition hex_digit :: "nat \<Rightarrow> nat option" where
  "hex_digit c =
     (if 0x30 \<le> c \<and> c \<le> 0x39 then Some (c - 0x30)
      else if 0x41 \<le> c \<and> c \<le> 0x46 then Some (c - 0x41 + 10)
      else if 0x61 \<le> c \<and> c \<le> 0x66 then Some (c - 0x61 + 10)
      else None)"

definition hex4 :: "nat \<Rightarrow> nat \<Rightarrow> nat \<Rightarrow> nat \<Rightarrow> nat option" where
  "hex4 h1 h2 h3 h4 =
     (case hex_digit h1 of None \<Rightarrow> None | Some a \<Rightarrow>
     (case hex_digit h2 of None \<Rightarrow> None | Some b \<Rightarrow>
     (case hex_digit h3 of None \<Rightarrow> None | Some c \<Rightarrow>
     (case hex_digit h4 of None \<Rightarrow> None | Some d \<Rightarrow>
        Some (((a * 16 + b) * 16 + c) * 16 + d)))))"

text \<open>The character after a backslash in a string, other than \<open>u\<close>, and what it denotes.\<close>

definition escape_char :: "nat \<Rightarrow> nat option" where
  "escape_char e =
     (if e = 0x22 then Some 0x22
      else if e = 0x5C then Some 0x5C
      else if e = 0x2F then Some 0x2F
      else if e = 0x62 then Some 0x08
      else if e = 0x66 then Some 0x0C
      else if e = 0x6E then Some 0x0A
      else if e = 0x72 then Some 0x0D
      else if e = 0x74 then Some 0x09
      else None)"

text \<open>
  \<open>lex_string\<close> reads a string token after its opening quote: the characters up to the
  closing quote (0x22), escapes (after 0x5C) decoded, control characters below 0x20
  refused. It returns the string's value and the input after the closing quote.
\<close>

fun lex_string :: "jsstring \<Rightarrow> (jsstring \<times> jsstring) option" where
  "lex_string [] = None"
| "lex_string (c # cs) =
     (if c = 0x22 then Some ([], cs)
      else if c = 0x5C then
        (case cs of
           [] \<Rightarrow> None
         | e # r \<Rightarrow>
             if e = 0x75 then
               (case r of
                  h1 # h2 # h3 # h4 # r' \<Rightarrow>
                    (case hex4 h1 h2 h3 h4 of
                       None \<Rightarrow> None
                     | Some u \<Rightarrow> map_option (\<lambda>(s, rest). (u # s, rest)) (lex_string r'))
                | _ \<Rightarrow> None)
             else
               (case escape_char e of
                  None \<Rightarrow> None
                | Some x \<Rightarrow> map_option (\<lambda>(s, rest). (x # s, rest)) (lex_string r)))
      else if c < 0x20 then None
      else map_option (\<lambda>(s, rest). (c # s, rest)) (lex_string cs))"

text \<open>
  A number token: an optional minus, an integer part (\<open>0\<close>, or a non-zero digit and
  digits), an optional fraction (a point and at least one digit) and an optional exponent
  (\<open>e\<close> or \<open>E\<close>, an optional sign and at least one digit). Each part returns its text
  and the input after it.
\<close>

definition lex_sign :: "jsstring \<Rightarrow> jsstring \<times> jsstring" where
  "lex_sign s = (case s of [] \<Rightarrow> ([], []) | c # r \<Rightarrow> if c = 0x2D then ([c], r) else ([], s))"

definition lex_int :: "jsstring \<Rightarrow> (jsstring \<times> jsstring) option" where
  "lex_int s =
     (case s of
        [] \<Rightarrow> None
      | d # r \<Rightarrow>
          if d = 0x30 then Some ([d], r)
          else if is_digit d then Some (d # takeWhile is_digit r, dropWhile is_digit r)
          else None)"

definition lex_frac :: "jsstring \<Rightarrow> (jsstring \<times> jsstring) option" where
  "lex_frac s =
     (case s of
        [] \<Rightarrow> Some ([], [])
      | d # r \<Rightarrow>
          if d = 0x2E then
            (if takeWhile is_digit r = [] then None
             else Some (d # takeWhile is_digit r, dropWhile is_digit r))
          else Some ([], s))"

definition lex_exp_sign :: "jsstring \<Rightarrow> jsstring \<times> jsstring" where
  "lex_exp_sign s =
     (case s of [] \<Rightarrow> ([], []) | c # r \<Rightarrow> if c = 0x2B \<or> c = 0x2D then ([c], r) else ([], s))"

definition lex_exp :: "jsstring \<Rightarrow> (jsstring \<times> jsstring) option" where
  "lex_exp s =
     (case s of
        [] \<Rightarrow> Some ([], [])
      | e # r \<Rightarrow>
          if e = 0x65 \<or> e = 0x45 then
            (case lex_exp_sign r of
               (sg, r') \<Rightarrow>
                 if takeWhile is_digit r' = [] then None
                 else Some (e # sg @ takeWhile is_digit r', dropWhile is_digit r'))
          else Some ([], s))"

definition lex_number :: "jsstring \<Rightarrow> (jsstring \<times> jsstring) option" where
  "lex_number s =
     (case lex_sign s of
        (sg, s1) \<Rightarrow>
          (case lex_int s1 of
             None \<Rightarrow> None
           | Some (i, s2) \<Rightarrow>
               (case lex_frac s2 of
                  None \<Rightarrow> None
                | Some (f, s3) \<Rightarrow>
                    (case lex_exp s3 of
                       None \<Rightarrow> None
                     | Some (e, s4) \<Rightarrow> Some (sg @ i @ f @ e, s4)))))"

text \<open>
  The lexer: white space is skipped between tokens; a character that starts no token, a
  malformed string or a malformed number makes the whole text invalid.
\<close>

function tokenize :: "jsstring \<Rightarrow> token list option" where
  "tokenize [] = Some []"
| "tokenize (c # cs) =
     (if is_json_ws c then tokenize cs
      else if c = 0x7B then map_option ((#) TLBrace) (tokenize cs)
      else if c = 0x7D then map_option ((#) TRBrace) (tokenize cs)
      else if c = 0x5B then map_option ((#) TLBracket) (tokenize cs)
      else if c = 0x5D then map_option ((#) TRBracket) (tokenize cs)
      else if c = 0x3A then map_option ((#) TColon) (tokenize cs)
      else if c = 0x2C then map_option ((#) TComma) (tokenize cs)
      else if c = 0x22 then
        (case lex_string cs of
           None \<Rightarrow> None
         | Some (s, rest) \<Rightarrow> map_option ((#) (TString s)) (tokenize rest))
      else if c = 0x2D \<or> is_digit c then
        (case lex_number (c # cs) of
           None \<Rightarrow> None
         | Some (n, rest) \<Rightarrow> map_option ((#) (TNumber n)) (tokenize rest))
      else
        (case strip_prefix (js ''true'') (c # cs) of
           Some rest \<Rightarrow> map_option ((#) TTrue) (tokenize rest)
         | None \<Rightarrow>
        (case strip_prefix (js ''false'') (c # cs) of
           Some rest \<Rightarrow> map_option ((#) TFalse) (tokenize rest)
         | None \<Rightarrow>
        (case strip_prefix (js ''null'') (c # cs) of
           Some rest \<Rightarrow> map_option ((#) TNull) (tokenize rest)
         | None \<Rightarrow> None))))"
  by pat_completeness auto
termination
proof -
  have str: "length r \<le> length cs" if "lex_string cs = Some (s, r)" for cs s r
    using that
  proof (induction cs arbitrary: s r rule: lex_string.induct)
    case 1
    then show ?case by simp
  next
    case (2 c cs)
    show ?case
    proof (cases "c = 0x22")
      case True
      with 2(4) show ?thesis by simp
    next
      case q: False
      show ?thesis
      proof (cases "c = 0x5C")
        case False
        with q 2(3) 2(4) show ?thesis
          by (fastforce split: if_splits)
      next
        case True
        with q 2(1) 2(2) 2(4) show ?thesis
          by (fastforce split: if_splits list.splits option.splits)
      qed
    qed
  qed
  have pre: "length s = length p + length r" if "strip_prefix p s = Some r"
    for p s r :: jsstring
    using that by (induction p s rule: strip_prefix.induct) (auto split: if_splits)
  have sgn: "s = a @ r" if "lex_sign s = (a, r)" for s a r
    using that by (auto simp: lex_sign_def split: list.splits if_splits)
  have esg: "s = a @ r" if "lex_exp_sign s = (a, r)" for s a r
    using that by (auto simp: lex_exp_sign_def split: list.splits if_splits)
  have int: "s = a @ r \<and> a \<noteq> []" if "lex_int s = Some (a, r)" for s a r
    using that by (auto simp: lex_int_def split: list.splits if_splits)
  have frac: "s = a @ r" if "lex_frac s = Some (a, r)" for s a r
    using that by (auto simp: lex_frac_def split: list.splits if_splits)
  have exp: "s = a @ r" if "lex_exp s = Some (a, r)" for s a r
    using that esg
    by (fastforce simp: lex_exp_def split: list.splits if_splits prod.splits)
  have num: "length r < length s" if "lex_number s = Some (n, r)" for s n r
  proof -
    from that obtain sg s1 i s2 f s3 e where
      "lex_sign s = (sg, s1)" "lex_int s1 = Some (i, s2)" "lex_frac s2 = Some (f, s3)"
      "lex_exp s3 = Some (e, r)"
      by (auto simp: lex_number_def split: prod.splits option.splits)
    then have "s = sg @ i @ f @ e @ r" and "i \<noteq> []"
      using sgn int frac exp by fastforce+
    then have "length s = length sg + length i + length f + length e + length r"
      and "0 < length i"
      by simp_all
    then show ?thesis by linarith
  qed
  show ?thesis
    by (relation "measure length")
      (auto simp: js_def split: if_splits dest: str num pre)
qed

text \<open>
  Creating a data property on an object: a key the object already has keeps its place
  and takes the new value; a new key is added last.
\<close>

fun create_data_property :: "(jsstring \<times> json) list \<Rightarrow> jsstring \<Rightarrow> json \<Rightarrow> (jsstring \<times> json) list" where
  "create_data_property [] k v = [(k, v)]"
| "create_data_property ((k', v') # ps) k v =
     (if k' = k then (k', v) # ps else (k', v') # create_data_property ps k v)"

definition object_of_members :: "(jsstring \<times> json) list \<Rightarrow> json" where
  "object_of_members ms = JObject (foldl (\<lambda>ps (k, v). create_data_property ps k v) [] ms)"

text \<open>
  The parser, by recursive descent over the tokens: \<open>parse_value\<close> reads one value and
  returns it with the tokens after it; \<open>parse_elements\<close> reads the elements of a
  non-empty array up to its closing bracket, \<open>parse_members\<close> the members of a
  non-empty object up to its closing brace. The test \<open>length r < length ts\<close> on the
  tokens left by a value is what makes the recursion well-founded; it always holds
  (\<open>parse_value_shorter\<close> below), so its \<open>else\<close> branch is never taken.
\<close>

function parse_value :: "token list \<Rightarrow> (json \<times> token list) option"
  and parse_elements :: "token list \<Rightarrow> (json list \<times> token list) option"
  and parse_members :: "token list \<Rightarrow> ((jsstring \<times> json) list \<times> token list) option"
where
  "parse_value ts =
     (case ts of
        [] \<Rightarrow> None
      | TNull # r \<Rightarrow> Some (JNull, r)
      | TTrue # r \<Rightarrow> Some (JBool True, r)
      | TFalse # r \<Rightarrow> Some (JBool False, r)
      | TString s # r \<Rightarrow> Some (JString s, r)
      | TNumber n # r \<Rightarrow> Some (JNumber n, r)
      | TLBracket # r \<Rightarrow>
          (case r of
             TRBracket # r' \<Rightarrow> Some (JArray [], r')
           | _ \<Rightarrow> map_option (\<lambda>(vs, r'). (JArray vs, r')) (parse_elements r))
      | TLBrace # r \<Rightarrow>
          (case r of
             TRBrace # r' \<Rightarrow> Some (JObject [], r')
           | _ \<Rightarrow> map_option (\<lambda>(ms, r'). (object_of_members ms, r')) (parse_members r))
      | _ \<Rightarrow> None)"
| "parse_elements ts =
     (case parse_value ts of
        None \<Rightarrow> None
      | Some (v, r) \<Rightarrow>
          if length r < length ts then
            (case r of
               TComma # r' \<Rightarrow> map_option (\<lambda>(vs, r''). (v # vs, r'')) (parse_elements r')
             | TRBracket # r' \<Rightarrow> Some ([v], r')
             | _ \<Rightarrow> None)
          else None)"
| "parse_members ts =
     (case ts of
        TString k # TColon # ts' \<Rightarrow>
          (case parse_value ts' of
             None \<Rightarrow> None
           | Some (v, r) \<Rightarrow>
               if length r < length ts' then
                 (case r of
                    TComma # r' \<Rightarrow>
                      map_option (\<lambda>(ms, r''). ((k, v) # ms, r'')) (parse_members r')
                  | TRBrace # r' \<Rightarrow> Some ([(k, v)], r')
                  | _ \<Rightarrow> None)
               else None)
      | _ \<Rightarrow> None)"
  by pat_completeness auto
termination
  by (relation "measure (\<lambda>x. case x of
        Inl ts \<Rightarrow> 2 * length ts
      | Inr (Inl ts) \<Rightarrow> 2 * length ts + 1
      | Inr (Inr ts) \<Rightarrow> 2 * length ts + 1)") auto

definition JSON_parse :: "jsstring \<Rightarrow> json option" where
  "JSON_parse text =
     (case tokenize text of
        None \<Rightarrow> None
      | Some ts \<Rightarrow>
          (case parse_value ts of
             None \<Rightarrow> None
           | Some (v, r) \<Rightarrow> if r = [] then Some v else None))"

section \<open>The service functions (services/geminiService.ts)\<close>

text \<open>
  How a promise ends: fulfilled with a value, rejected with an \<open>Error\<close> object (kept: its
  message), or never settled.
\<close>

datatype 'a outcome = Fulfilled 'a | Rejected jsstring | Pending

text \<open>What a \<open>try\<close> block can throw: \<open>new Error(message)\<close>, or the SyntaxError of \<open>JSON.parse\<close>.\<close>

datatype js_exn = Error jsstring | SyntaxError

text \<open>\<open>s.replace(/^```json\n?/, '')\<close> and \<open>s.replace(/\n?```$/, '')\<close>.\<close>

definition replace_leading_fence :: "jsstring \<Rightarrow> jsstring" where
  "replace_leading_fence s =
     (case strip_prefix (js ''```json'') s of
        None \<Rightarrow> s
      | Some r \<Rightarrow> (case strip_prefix [0x0A] r of None \<Rightarrow> r | Some r' \<Rightarrow> r'))"

definition replace_trailing_fence :: "jsstring \<Rightarrow> jsstring" where
  "replace_trailing_fence s =
     (case strip_suffix (js ''```'') s of
        None \<Rightarrow> s
      | Some r \<Rightarrow> (case strip_suffix [0x0A] r of None \<Rightarrow> r | Some r' \<Rightarrow> r'))"

definition cleanedJsonString :: "jsstring \<Rightarrow> jsstring" where
  "cleanedJsonString rawText = replace_trailing_fence (replace_leading_fence (trim rawText))"

text \<open>
  \<open>analyzeImage\<close> from the point where \<open>generateContent\<close> has resolved, with
  \<open>response.text = rawText\<close> (\<open>None\<close> is \<open>undefined\<close>): first the body of the \<open>try\<close>
  block, with \<open>JSON.parse\<close> as the parameter \<open>parse\<close>, then the function with its
  \<open>catch\<close>, which replaces whatever was thrown by one fixed \<open>Error\<close>. The parsed value is
  returned as it is.
\<close>

definition analyzeImage_try :: "(jsstring \<Rightarrow> json option) \<Rightarrow> jsstring option \<Rightarrow> js_exn + json" where
  "analyzeImage_try parse rawText =
     (case rawText of
        None \<Rightarrow> Inl (Error (js ''Failed to analyze image. The AI returned an empty response.''))
      | Some t \<Rightarrow>
          if t = [] then
            Inl (Error (js ''Failed to analyze image. The AI returned an empty response.''))
          else
            (case parse (cleanedJsonString t) of
               None \<Rightarrow> Inl SyntaxError
             | Some v \<Rightarrow> Inr v))"

definition analyzeImage_response :: "jsstring option \<Rightarrow> json outcome" where
  "analyzeImage_response rawText =
     (case analyzeImage_try JSON_parse rawText of
        Inl e \<Rightarrow>
          Rejected (js ''Failed to analyze image. The AI may not have been able to provide a structured response.'')
      | Inr v \<Rightarrow> Fulfilled v)"

definition getPromptSuggestions_try :: "(jsstring \<Rightarrow> json option) \<Rightarrow> jsstring option \<Rightarrow> js_exn + json" where
  "getPromptSuggestions_try parse rawText =
     (case rawText of
        None \<Rightarrow>
          Inl (Error (js ''Failed to generate prompt suggestions. The AI returned an empty response.''))
      | Some t \<Rightarrow>
          if t = [] then
            Inl (Error (js ''Failed to generate prompt suggestions. The AI returned an empty response.''))
          else
            (case parse (cleanedJsonString t) of
               None \<Rightarrow> Inl SyntaxError
             | Some v \<Rightarrow> Inr v))"

definition getPromptSuggestions_response :: "jsstring option \<Rightarrow> json outcome" where
  "getPromptSuggestions_response rawText =
     (case getPromptSuggestions_try JSON_parse rawText of
        Inl e \<Rightarrow> Rejected (js ''Failed to generate prompt suggestions.'')
      | Inr v \<Rightarrow> Fulfilled v)"

text \<open>
  \<open>extractTextFromImage\<close> from the same point: \<open>{ text: response.text ?? '' }\<close>.
\<close>

record TextExtractionResponse =
  "text" :: jsstring

definition extractTextFromImage_response :: "jsstring option \<Rightarrow> TextExtractionResponse outcome" where
  "extractTextFromImage_response rawText =
     Fulfilled \<lparr>text = (case rawText of None \<Rightarrow> [] | Some t \<Rightarrow> t)\<rparr>"

text \<open>
  The fields the response schemas list as \<open>required\<close>, and whether a value is an object
  that has them all.
\<close>

definition analysisSchema_required :: "jsstring list" where
  "analysisSchema_required =
     [js ''title'', js ''summary'', js ''detected_objects'', js ''color_palette'']"

definition suggestionsSchema_required :: "jsstring list" where
  "suggestionsSchema_required = [js ''suggestions'']"

fun has_fields :: "jsstring list \<Rightarrow> json \<Rightarrow> bool" where
  "has_fields fs (JObject ps) = list_all (\<lambda>f. f \<in> fst ` set ps) fs"
| "has_fields fs _ = False"

subsection \<open>Building the image part\<close>

text \<open>A \<open>File\<close>: its bytes and its MIME type.\<close>

record File =
  bytes :: "8 word list"
  type :: jsstring

text \<open>
  Base64 (RFC 4648), which \<open>FileReader.readAsDataURL\<close> applies to the bytes and the
  receiver of the request undoes: three bytes become four characters of the alphabet
  \<open>A-Z a-z 0-9 + /\<close>, a last group of one or two bytes is padded with \<open>=\<close> (0x3D).
\<close>

definition b64_char :: "nat \<Rightarrow> nat" where
  "b64_char i =
     (if i < 26 then 0x41 + i
      else if i < 52 then 0x61 + (i - 26)
      else if i < 62 then 0x30 + (i - 52)
      else if i = 62 then 0x2B
      else 0x2F)"

definition b64_index :: "nat \<Rightarrow> nat option" where
  "b64_index c =
     (if 0x41 \<le> c \<and> c \<le> 0x5A then Some (c - 0x41)
      else if 0x61 \<le> c \<and> c \<le> 0x7A then Some (c - 0x61 + 26)
      else if 0x30 \<le> c \<and> c \<le> 0x39 then Some (c - 0x30 + 52)
      else if c = 0x2B then Some 62
      else if c = 0x2F then Some 63
      else None)"

fun base64_encode :: "8 word list \<Rightarrow> jsstring" where
  "base64_encode [] = []"
| "base64_encode [a] =
     [b64_char (unat a div 4), b64_char (unat a mod 4 * 16), 0x3D, 0x3D]"
| "base64_encode [a, b] =
     [b64_char (unat a div 4), b64_char (unat a mod 4 * 16 + unat b div 16),
      b64_char (unat b mod 16 * 4), 0x3D]"
| "base64_encode (a # b # c # r) =
     [b64_char (unat a div 4), b64_char (unat a mod 4 * 16 + unat b div 16),
      b64_char (unat b mod 16 * 4 + unat c div 64), b64_char (unat c mod 64)]
     @ base64_encode r"

fun base64_decode :: "jsstring \<Rightarrow> 8 word list option" where
  "base64_decode [] = Some []"
| "base64_decode (c1 # c2 # c3 # c4 # r) =
     (case b64_index c1 of None \<Rightarrow> None | Some i1 \<Rightarrow>
     (case b64_index c2 of None \<Rightarrow> None | Some i2 \<Rightarrow>
        if r = [] \<and> c3 = 0x3D \<and> c4 = 0x3D then
          Some [of_nat (i1 * 4 + i2 div 16)]
        else
         (case b64_index c3 of None \<Rightarrow> None | Some i3 \<Rightarrow>
            if r = [] \<and> c4 = 0x3D then
              Some [of_nat (i1 * 4 + i2 div 16), of_nat (i2 mod 16 * 16 + i3 div 4)]
            else
             (case b64_index c4 of None \<Rightarrow> None | Some i4 \<Rightarrow>
                map_option
                  (\<lambda>bs. of_nat (i1 * 4 + i2 div 16) # of_nat (i2 mod 16 * 16 + i3 div 4)
                         # of_nat (i3 mod 4 * 64 + i4) # bs)
                  (base64_decode r)))))"
| "base64_decode _ = None"

text \<open>
  \<open>reader.result\<close> when \<open>loadend\<close> fires after \<open>readAsDataURL(file)\<close>: the data URL
  of the file (\<open>data:\<close>, a media type, \<open>;base64,\<close> and the base64 text of the bytes)
  when the read succeeds, \<open>null\<close> when it fails. The File API leaves to the engine how
  the file's type becomes the media type of the header: written as it is, or parsed and
  serialised again, with \<open>application/octet-stream\<close> for a type that is empty or does not
  parse. That function of the engine is the parameter \<open>mediaType\<close>.
\<close>

definition readAsDataURL :: "(jsstring \<Rightarrow> jsstring) \<Rightarrow> bool \<Rightarrow> File \<Rightarrow> jsstring option" where
  "readAsDataURL mediaType readable file =
     (if readable
      then Some (js ''data:'' @ mediaType (type file) @ js '';base64,''
                 @ base64_encode (bytes file))
      else None)"

text \<open>\<open>s.split(sep)\<close> for a separator of one character, and \<open>xs[1]\<close> (\<open>None\<close>: undefined).\<close>

fun split :: "nat \<Rightarrow> jsstring \<Rightarrow> jsstring list" where
  "split sep [] = [[]]"
| "split sep (c # cs) =
     (if c = sep then [] # split sep cs
      else (case split sep cs of [] \<Rightarrow> [[c]] | x # xs \<Rightarrow> (c # x) # xs))"

definition second :: "'a list \<Rightarrow> 'a option" where
  "second xs = (case xs of _ # x # _ \<Rightarrow> Some x | _ \<Rightarrow> None)"

record inlineData =
  data :: "jsstring option"
  mimeType :: jsstring

text \<open>
  \<open>fileToGenerativePart\<close>: the promise is resolved in \<open>onloadend\<close>, and only when
  \<open>reader.result\<close> is a string; nothing rejects it.
\<close>

definition fileToGenerativePart :: "(jsstring \<Rightarrow> jsstring) \<Rightarrow> bool \<Rightarrow> File \<Rightarrow> inlineData outcome" where
  "fileToGenerativePart mediaType readable file =
     (case readAsDataURL mediaType readable file of
        None \<Rightarrow> Pending
      | Some result \<Rightarrow> Fulfilled \<lparr>data = second (split 0x2C result), mimeType = type file\<rparr>)"

section \<open>The application state (App.tsx)\<close>

datatype AppState = Idle | Loading | Interactive

record App =
  appState :: AppState
  imageFile :: "File option"
  prompt :: jsstring
  analysisResult :: "json option"
  textResult :: "TextExtractionResponse option"
  error :: "jsstring option"

definition App_initial :: App where
  "App_initial =
     \<lparr>appState = Idle, imageFile = None, prompt = js ''Analyze this image'',
      analysisResult = None, textResult = None, error = None\<rparr>"

definition handleImageChange :: "File \<Rightarrow> App \<Rightarrow> App" where
  "handleImageChange file s =
     s\<lparr>imageFile := Some file, analysisResult := None, textResult := None, error := None,
       prompt := js ''Analyze this image'', appState := Interactive\<rparr>"

definition handleReset :: "App \<Rightarrow> App" where
  "handleReset s =
     s\<lparr>imageFile := None, analysisResult := None, textResult := None, error := None,
       appState := Idle\<rparr>"

text \<open>The calls \<open>handleAnalyze\<close> sends out.\<close>

datatype request = AnalyzeImage File jsstring | ExtractTextFromImage File

text \<open>
  \<open>handleAnalyze\<close> up to its \<open>await\<close>: the state it leaves and the calls it has
  issued.
\<close>

definition handleAnalyze_start :: "App \<Rightarrow> App \<times> request list" where
  "handleAnalyze_start s =
     (case imageFile s of
        None \<Rightarrow> (s, [])
      | Some file \<Rightarrow>
          (s\<lparr>error := None, analysisResult := None, textResult := None, appState := Loading\<rparr>,
           [AnalyzeImage file (prompt s), ExtractTextFromImage file]))"

text \<open>
  \<open>Promise.all\<close> of two promises: rejected as soon as one of them is (when both are,
  \<open>second_first\<close> says that the second was rejected before the first), fulfilled when
  both are, and pending otherwise.
\<close>

definition promise_all :: "bool \<Rightarrow> 'a outcome \<Rightarrow> 'b outcome \<Rightarrow> ('a \<times> 'b) outcome" where
  "promise_all second_first a b =
     (case a of
        Rejected ea \<Rightarrow>
          (case b of Rejected eb \<Rightarrow> Rejected (if second_first then eb else ea) | _ \<Rightarrow> Rejected ea)
      | Fulfilled x \<Rightarrow>
          (case b of Rejected eb \<Rightarrow> Rejected eb | Fulfilled y \<Rightarrow> Fulfilled (x, y) | Pending \<Rightarrow> Pending)
      | Pending \<Rightarrow>
          (case b of Rejected eb \<Rightarrow> Rejected eb | _ \<Rightarrow> Pending))"

text \<open>
  \<open>handleAnalyze\<close> after its \<open>await\<close>, on the state of that moment: the rest of the
  \<open>try\<close> block or the \<open>catch\<close>, then \<open>finally\<close>. While the joined promise is
  pending nothing runs.
\<close>

definition handleAnalyze_settled :: "(json \<times> TextExtractionResponse) outcome \<Rightarrow> App \<Rightarrow> App" where
  "handleAnalyze_settled joined s =
     (case joined of
        Fulfilled (analysis, txt) \<Rightarrow>
          s\<lparr>analysisResult := Some analysis, textResult := Some txt, appState := Interactive\<rparr>
      | Rejected message \<Rightarrow>
          s\<lparr>error := Some (if message = [] then js ''An unknown error occurred.'' else message),
            appState := Interactive\<rparr>
      | Pending \<Rightarrow> s)"

text \<open>
  One run of \<open>handleAnalyze\<close> in which no other handler and no other run's continuation
  runs between its start and its continuation. Runs that overlap are sequences of
  \<open>step\<close> below.
\<close>

definition handleAnalyze :: "bool \<Rightarrow> json outcome \<Rightarrow> TextExtractionResponse outcome \<Rightarrow> App \<Rightarrow> App" where
  "handleAnalyze second_first analysis txt s =
     (case imageFile s of
        None \<Rightarrow> s
      | Some file \<Rightarrow>
          handleAnalyze_settled (promise_all second_first analysis txt) (fst (handleAnalyze_start s)))"

text \<open>
  The transitions of the state: an image is selected, the state is reset, an analysis is
  requested, and the joined call of an earlier request settles. They may come in any
  order.
\<close>

datatype event =
    ImageSelected File
  | Reset
  | AnalyzeRequested
  | AnalyzeSettled "(json \<times> TextExtractionResponse) outcome"

fun step :: "App \<Rightarrow> event \<Rightarrow> App" where
  "step s (ImageSelected file) = handleImageChange file s"
| "step s Reset = handleReset s"
| "step s AnalyzeRequested = fst (handleAnalyze_start s)"
| "step s (AnalyzeSettled joined) = handleAnalyze_settled joined s"

text \<open>The transitions that store results: the settlement of a fulfilled joined call.\<close>

fun applies_results :: "event \<Rightarrow> bool" where
  "applies_results (AnalyzeSettled (Fulfilled x)) = True"
| "applies_results _ = False"

definition loading_has_image :: "App \<Rightarrow> bool" where
  "loading_has_image s \<longleftrightarrow> (appState s = Loading \<longrightarrow> imageFile s \<noteq> None)"

section \<open>Properties of JSON.parse\<close>

declare parse_value.simps [simp del] parse_elements.simps [simp del] parse_members.simps [simp del]

text \<open>
  The tokens a value leaves are fewer than the tokens it was read from; so the test on
  their number in \<open>parse_elements\<close> and \<open>parse_members\<close> always succeeds.
\<close>

lemma parse_value_shorter:
  "(\<forall>v r. parse_value ts = Some (v, r) \<longrightarrow> length r < length ts)"
  "(\<forall>vs r. parse_elements ts1 = Some (vs, r) \<longrightarrow> length r < length ts1)"
  "(\<forall>ms r. parse_members ts2 = Some (ms, r) \<longrightarrow> length r < length ts2)"
proof (induction ts and ts1 and ts2 rule: parse_value_parse_elements_parse_members.induct)
  case (1 ts)
  show ?case
  proof (intro allI impI)
    fix v r
    assume pv: "parse_value ts = Some (v, r)"
    show "length r < length ts"
    proof (cases ts)
      case Nil
      with pv show ?thesis by (simp add: parse_value.simps)
    next
      case (Cons t rest)
      have elems: "\<forall>vs r. parse_elements rest = Some (vs, r) \<longrightarrow> length r < length rest"
        if "t = TLBracket" "\<nexists>r'. rest = TRBracket # r'"
      proof (cases rest)
        case Nil
        show ?thesis
          by (rule "1"; (simp add: Cons that Nil; fail))
      next
        case c: (Cons c d)
        with that have "c \<noteq> TRBracket" by simp
        then show ?thesis
          by (cases c) (rule "1"; (simp add: Cons that c; fail))+
      qed
      have membs: "\<forall>ms r. parse_members rest = Some (ms, r) \<longrightarrow> length r < length rest"
        if "t = TLBrace" "\<nexists>r'. rest = TRBrace # r'"
      proof (cases rest)
        case Nil
        show ?thesis
          by (rule "1"; (simp add: Cons that Nil; fail))
      next
        case c: (Cons c d)
        with that have "c \<noteq> TRBrace" by simp
        then show ?thesis
          by (cases c) (rule "1"; (simp add: Cons that c; fail))+
      qed
      show ?thesis
      proof (cases t)
        case TLBracket
        show ?thesis
        proof (cases "\<exists>r'. rest = TRBracket # r'")
          case True
          with pv Cons TLBracket show ?thesis by (subst (asm) parse_value.simps) auto
        next
          case False
          with pv Cons TLBracket obtain vs where "parse_elements rest = Some (vs, r)"
            by (subst (asm) parse_value.simps) (auto split: list.splits token.splits)
          with elems [OF TLBracket False] Cons show ?thesis by auto
        qed
      next
        case TLBrace
        show ?thesis
        proof (cases "\<exists>r'. rest = TRBrace # r'")
          case True
          with pv Cons TLBrace show ?thesis by (subst (asm) parse_value.simps) auto
        next
          case False
          with pv Cons TLBrace obtain ms where "parse_members rest = Some (ms, r)"
            by (subst (asm) parse_value.simps) (auto split: list.splits token.splits)
          with membs [OF TLBrace False] Cons show ?thesis by auto
        qed
      qed (use pv Cons in \<open>subst (asm) parse_value.simps, simp\<close>)+
    qed
  qed
next
  case (2 ts)
  show ?case
  proof (intro allI impI)
    fix vs r
    assume pe: "parse_elements ts = Some (vs, r)"
    then obtain v r0 where pv: "parse_value ts = Some (v, r0)" and len: "length r0 < length ts"
      by (subst (asm) parse_elements.simps) (auto split: option.splits if_splits)
    show "length r < length ts"
    proof (cases r0)
      case Nil
      with pe pv show ?thesis
        by (subst (asm) parse_elements.simps) (simp split: if_splits)
    next
      case (Cons t r1)
      show ?thesis
      proof (cases t)
        case TComma
        with pe pv len Cons obtain vs' where "parse_elements r1 = Some (vs', r)"
          by (subst (asm) parse_elements.simps) auto
        with 2(2) [OF pv refl len Cons TComma] have "length r < length r1" by blast
        with len Cons show ?thesis by simp
      next
        case TRBracket
        with pe pv len Cons have "r = r1"
          by (subst (asm) parse_elements.simps) auto
        with len Cons show ?thesis by simp
      qed (use pe pv len Cons in \<open>subst (asm) parse_elements.simps, simp\<close>)+
    qed
  qed
next
  case (3 ts)
  show ?case
  proof (intro allI impI)
    fix ms r
    assume pm: "parse_members ts = Some (ms, r)"
    then obtain k ts' where ts: "ts = TString k # TColon # ts'"
      by (subst (asm) parse_members.simps) (auto split: list.splits token.splits)
    with pm obtain v r0 where pv: "parse_value ts' = Some (v, r0)" and len: "length r0 < length ts'"
      by (subst (asm) parse_members.simps) (auto split: option.splits if_splits)
    show "length r < length ts"
    proof (cases r0)
      case Nil
      with pm ts pv show ?thesis
        by (subst (asm) parse_members.simps) (simp split: if_splits)
    next
      case (Cons t r1)
      show ?thesis
      proof (cases t)
        case TComma
        with pm ts pv len Cons obtain ms' where "parse_members r1 = Some (ms', r)"
          by (subst (asm) parse_members.simps) auto
        with 3(2) [OF ts refl refl refl pv refl len Cons TComma] have "length r < length r1"
          by blast
        with len Cons ts show ?thesis by simp
      next
        case TRBrace
        with pm ts pv len Cons have "r = r1"
          by (subst (asm) parse_members.simps) auto
        with len Cons ts show ?thesis by simp
      qed (use pm ts pv len Cons in \<open>subst (asm) parse_members.simps, simp\<close>)+
    qed
  qed
qed

text \<open>White space around a text changes neither its tokens nor what it parses to.\<close>

lemma strip_prefix_Some_iff: "strip_prefix p s = Some r \<longleftrightarrow> s = p @ r"
  by (induction p s rule: strip_prefix.induct) auto

lemma strip_prefix_append [simp]: "strip_prefix p (p @ r) = Some r"
  by (simp add: strip_prefix_Some_iff)

lemma strip_suffix_Some_iff: "strip_suffix p s = Some r \<longleftrightarrow> s = r @ p"
proof -
  have "strip_suffix p s = Some r \<longleftrightarrow> strip_prefix (rev p) (rev s) = Some (rev r)"
    by (auto simp: strip_suffix_def)
  also have "\<dots> \<longleftrightarrow> rev s = rev p @ rev r"
    by (simp only: strip_prefix_Some_iff)
  also have "\<dots> \<longleftrightarrow> s = r @ p"
    by (metis rev_append rev_rev_ident)
  finally show ?thesis .
qed

lemma is_json_ws_imp_js: "is_json_ws c \<Longrightarrow> is_js_whitespace c"
  by (auto simp: is_json_ws_def is_js_whitespace_def)

lemma tokenize_ws_prefix: "list_all is_json_ws a \<Longrightarrow> tokenize (a @ s) = tokenize s"
  by (induction a) auto

lemma tokenize_ws: "list_all is_json_ws b \<Longrightarrow> tokenize b = Some []"
  using tokenize_ws_prefix [of b "[]"] by simp

lemma strip_prefix_ws_suffix:
  "list_all is_json_ws b \<Longrightarrow> list_all (\<lambda>c. \<not> is_json_ws c) p \<Longrightarrow>
   strip_prefix p (s @ b) = map_option (\<lambda>r. r @ b) (strip_prefix p s)"
proof (induction p s rule: strip_prefix.induct)
  case (1 s)
  then show ?case by simp
next
  case (2 p ps)
  then show ?case by (cases b) auto
next
  case (3 p ps c cs)
  then show ?case by simp
qed

lemma hex_digit_ws: "is_json_ws c \<Longrightarrow> hex_digit c = None"
  by (auto simp: is_json_ws_def hex_digit_def)

lemma hex4_ws:
  "is_json_ws h1 \<or> is_json_ws h2 \<or> is_json_ws h3 \<or> is_json_ws h4 \<Longrightarrow> hex4 h1 h2 h3 h4 = None"
  by (auto simp: hex4_def hex_digit_ws split: option.splits)

lemma escape_char_ws: "is_json_ws c \<Longrightarrow> escape_char c = None"
  by (auto simp: is_json_ws_def escape_char_def)

lemma lex_string_ws: "list_all is_json_ws b \<Longrightarrow> lex_string b = None"
  by (induction b) (auto simp: is_json_ws_def)


lemma lex_string_ws_suffix:
  "list_all is_json_ws b \<Longrightarrow>
   lex_string (s @ b) = map_option (\<lambda>(v, r). (v, r @ b)) (lex_string s)"
proof (induction s rule: lex_string.induct)
  case 1
  then show ?case by (simp add: lex_string_ws)
next
  case (2 c cs)
  note ws = \<open>list_all is_json_ws b\<close>
  show ?case
  proof (cases "c = 0x22")
    case True
    then show ?thesis by simp
  next
    case nq: False
    show ?thesis
    proof (cases "c = 0x5C")
      case False
      with nq 2(3) ws show ?thesis
        by (cases "lex_string cs") (auto simp: option.map_comp comp_def)
    next
      case bs: True
      show ?thesis
      proof (cases cs)
        case Nil
        with bs ws show ?thesis
          by (cases b) (auto simp: escape_char_ws is_json_ws_def)
      next
        case (Cons e r)
        show ?thesis
        proof (cases "e = 0x75")
          case False
          with nq bs Cons 2(2) ws show ?thesis
            by (cases "escape_char e"; cases "lex_string r") auto
        next
          case u: True
          show ?thesis
          proof (cases "\<exists>h1 h2 h3 h4 r'. r = h1 # h2 # h3 # h4 # r'")
            case True
            then obtain h1 h2 h3 h4 r' where r: "r = h1 # h2 # h3 # h4 # r'" by blast
            with nq bs Cons u 2(1) ws show ?thesis
              by (cases "hex4 h1 h2 h3 h4"; cases "lex_string r'") auto
          next
            case False
            then have short: "length r < 4"
              by (cases r; cases "tl r"; cases "tl (tl r)"; cases "tl (tl (tl r))") auto
            have none: "lex_string (c # cs) = None"
              using False bs Cons u by (auto split: list.splits)
            have "lex_string (c # e # r @ b) = None"
            proof (cases "r @ b")
              case Nil
              with bs u show ?thesis by simp
            next
              case c1: (Cons x1 y1)
              show ?thesis
              proof (cases y1)
                case Nil
                with c1 bs u show ?thesis by simp
              next
                case c2: (Cons x2 y2)
                show ?thesis
                proof (cases y2)
                  case Nil
                  with c1 c2 bs u show ?thesis by simp
                next
                  case c3: (Cons x3 y3)
                  show ?thesis
                  proof (cases y3)
                    case Nil
                    with c1 c2 c3 bs u show ?thesis by simp
                  next
                    case c4: (Cons x4 y4)
                    have "r @ b = x1 # x2 # x3 # x4 # y4"
                      using c1 c2 c3 c4 by simp
                    with short ws have "is_json_ws x4"
                      by (cases r; cases "tl r"; cases "tl (tl r)"; cases "tl (tl (tl r))")
                        auto
                    then have "hex4 x1 x2 x3 x4 = None" by (simp add: hex4_ws)
                    with c1 c2 c3 c4 bs u show ?thesis by simp
                  qed
                qed
              qed
            qed
            with none Cons show ?thesis by simp
          qed
        qed
      qed
    qed
  qed
qed


lemma ws_not_digit: "is_json_ws c \<Longrightarrow> \<not> is_digit c"
  by (auto simp: is_json_ws_def is_digit_def)

lemma takeWhile_digit_ws [simp]: "list_all is_json_ws b \<Longrightarrow> takeWhile is_digit b = []"
  by (cases b) (auto simp: ws_not_digit)

lemma dropWhile_digit_ws [simp]: "list_all is_json_ws b \<Longrightarrow> dropWhile is_digit b = b"
  by (cases b) (auto simp: ws_not_digit)

lemma takeWhile_digit_ws_suffix:
  "list_all is_json_ws b \<Longrightarrow> takeWhile is_digit (r @ b) = takeWhile is_digit r"
  by (induction r) auto

lemma dropWhile_digit_ws_suffix:
  "list_all is_json_ws b \<Longrightarrow> dropWhile is_digit (r @ b) = dropWhile is_digit r @ b"
  by (induction r) auto

lemma lex_sign_ws_suffix:
  "list_all is_json_ws b \<Longrightarrow> lex_sign (s @ b) = (fst (lex_sign s), snd (lex_sign s) @ b)"
  by (cases s; cases b) (auto simp: lex_sign_def is_json_ws_def)

lemma lex_exp_sign_ws_suffix:
  "list_all is_json_ws b \<Longrightarrow>
   lex_exp_sign (s @ b) = (fst (lex_exp_sign s), snd (lex_exp_sign s) @ b)"
  by (cases s; cases b) (auto simp: lex_exp_sign_def is_json_ws_def)

lemma lex_int_ws_suffix:
  "list_all is_json_ws b \<Longrightarrow>
   lex_int (s @ b) = map_option (\<lambda>(v, r). (v, r @ b)) (lex_int s)"
  by (cases s; cases b)
    (auto simp: lex_int_def is_json_ws_def is_digit_def takeWhile_digit_ws_suffix
      dropWhile_digit_ws_suffix)

lemma lex_frac_ws_suffix:
  "list_all is_json_ws b \<Longrightarrow>
   lex_frac (s @ b) = map_option (\<lambda>(v, r). (v, r @ b)) (lex_frac s)"
  by (cases s; cases b)
    (auto simp: lex_frac_def is_json_ws_def takeWhile_digit_ws_suffix
      dropWhile_digit_ws_suffix)

lemma lex_exp_ws_suffix:
  "list_all is_json_ws b \<Longrightarrow>
   lex_exp (s @ b) = map_option (\<lambda>(v, r). (v, r @ b)) (lex_exp s)"
proof (cases s)
  case Nil
  assume "list_all is_json_ws b"
  with Nil show ?thesis
    by (cases b) (auto simp: lex_exp_def is_json_ws_def)
next
  case (Cons e r)
  assume ws: "list_all is_json_ws b"
  show ?thesis
    using Cons lex_exp_sign_ws_suffix [OF ws, of r]
    by (auto simp: lex_exp_def takeWhile_digit_ws_suffix [OF ws] dropWhile_digit_ws_suffix [OF ws]
        split: prod.splits)
qed

lemma lex_number_ws_suffix:
  assumes "list_all is_json_ws b"
  shows "lex_number (s @ b) = map_option (\<lambda>(v, r). (v, r @ b)) (lex_number s)"
  using lex_sign_ws_suffix [OF assms, of s]
  by (auto simp: lex_number_def lex_int_ws_suffix [OF assms] lex_frac_ws_suffix [OF assms]
      lex_exp_ws_suffix [OF assms] split: prod.splits option.splits)

lemma map_option_Cons_comm:
  "map_option ((#) t) (map_option f x) = map_option (\<lambda>y. t # f y) x"
  by (cases x) auto

lemma tokenize_ws_suffix: "list_all is_json_ws b \<Longrightarrow> tokenize (s @ b) = tokenize s"
proof (induction s rule: tokenize.induct)
  case 1
  then show ?case by (simp add: tokenize_ws)
next
  case (2 c cs)
  note ws = \<open>list_all is_json_ws b\<close>
  have nws: "list_all (\<lambda>c. \<not> is_json_ws c) (js ''true'')"
    "list_all (\<lambda>c. \<not> is_json_ws c) (js ''false'')"
    "list_all (\<lambda>c. \<not> is_json_ws c) (js ''null'')"
    by (simp_all add: js_def is_json_ws_def)
  have pre: "strip_prefix l (c # cs @ b) = map_option (\<lambda>r. r @ b) (strip_prefix l (c # cs))"
    if "list_all (\<lambda>c. \<not> is_json_ws c) l" for l
    using strip_prefix_ws_suffix [OF ws that, of "c # cs"] by simp
  consider (skip) "is_json_ws c"
    | (punct) "\<not> is_json_ws c" "c \<in> {0x7B, 0x7D, 0x5B, 0x5D, 0x3A, 0x2C}"
    | (str) "\<not> is_json_ws c" "c \<notin> {0x7B, 0x7D, 0x5B, 0x5D, 0x3A, 0x2C}" "c = 0x22"
    | (num) "\<not> is_json_ws c" "c \<notin> {0x7B, 0x7D, 0x5B, 0x5D, 0x3A, 0x2C}" "c \<noteq> 0x22"
        "c = 0x2D \<or> is_digit c"
    | (lit) "\<not> is_json_ws c" "c \<notin> {0x7B, 0x7D, 0x5B, 0x5D, 0x3A, 0x2C}" "c \<noteq> 0x22"
        "\<not> (c = 0x2D \<or> is_digit c)"
    by blast
  then show ?case
  proof cases
    case skip
    with 2(1) ws show ?thesis by simp
  next
    case punct
    with 2(2-7) ws show ?thesis by auto
  next
    case str
    show ?thesis
    proof (cases "lex_string cs")
      case None
      with str ws show ?thesis by (simp add: lex_string_ws_suffix)
    next
      case (Some x)
      then obtain v r where x: "lex_string cs = Some (v, r)" by (cases x) auto
      have "tokenize (r @ b) = tokenize r"
        using 2(8) [of "(v, r)" v r] str x ws by simp
      with str x ws show ?thesis by (simp add: lex_string_ws_suffix)
    qed
  next
    case num
    have eq: "lex_number (c # cs @ b) = map_option (\<lambda>(v, r). (v, r @ b)) (lex_number (c # cs))"
      using lex_number_ws_suffix [OF ws, of "c # cs"] by simp
    show ?thesis
    proof (cases "lex_number (c # cs)")
      case None
      with num eq show ?thesis by auto
    next
      case (Some x)
      then obtain v r where x: "lex_number (c # cs) = Some (v, r)" by (cases x) auto
      have "tokenize (r @ b) = tokenize r"
        using 2(9) [of "(v, r)" v r] num x ws by simp
      with num x eq show ?thesis by auto
    qed
  next
    case lit
    show ?thesis
    proof (cases "strip_prefix (js ''true'') (c # cs)")
      case (Some r)
      have "tokenize (r @ b) = tokenize r"
        using 2(12) [of r] lit Some ws by simp
      with lit Some pre [OF nws(1)] show ?thesis by simp
    next
      case t: None
      show ?thesis
      proof (cases "strip_prefix (js ''false'') (c # cs)")
        case (Some r)
        have "tokenize (r @ b) = tokenize r"
          using 2(11) [of r] lit t Some ws by simp
        with lit t Some pre [OF nws(1)] pre [OF nws(2)] show ?thesis by simp
      next
        case f: None
        show ?thesis
        proof (cases "strip_prefix (js ''null'') (c # cs)")
          case (Some r)
          have "tokenize (r @ b) = tokenize r"
            using 2(10) [of r] lit t f Some ws by simp
          with lit t f Some pre [OF nws(1)] pre [OF nws(2)] pre [OF nws(3)] show ?thesis
            by simp
        next
          case None
          with lit t f pre [OF nws(1)] pre [OF nws(2)] pre [OF nws(3)] show ?thesis
            by simp
        qed
      qed
    qed
  qed
qed


lemma tokenize_first:
  assumes "tokenize (c # cs) = Some ts" and "\<not> is_json_ws c"
  shows "c \<in> {0x7B, 0x7D, 0x5B, 0x5D, 0x3A, 0x2C, 0x22, 0x2D, 0x74, 0x66, 0x6E} \<or> is_digit c"
proof (rule ccontr)
  assume "\<not> ?thesis"
  with assms(2) have "tokenize (c # cs) = None"
    by (simp add: js_def)
  with assms(1) show False by simp
qed

lemma lex_string_quote:
  "lex_string cs = Some (v, r) \<Longrightarrow> \<exists>pre. cs = pre @ 0x22 # r"
proof (induction cs arbitrary: v rule: lex_string.induct)
  case 1
  then show ?case by simp
next
  case (2 c cs)
  show ?case
  proof (cases "c = 0x22")
    case True
    with 2(4) show ?thesis by simp
  next
    case nq: False
    show ?thesis
    proof (cases "c = 0x5C")
      case False
      with nq 2(4) obtain v' where "lex_string cs = Some (v', r)" "\<not> c < 0x20"
        by (auto split: if_splits)
      with nq False 2(3) [of v'] obtain pre where "cs = pre @ 0x22 # r" by auto
      then have "c # cs = (c # pre) @ 0x22 # r" by simp
      then show ?thesis by blast
    next
      case bs: True
      with nq 2(4) obtain e r0 where cs: "cs = e # r0"
        by (cases cs) auto
      show ?thesis
      proof (cases "e = 0x75")
        case False
        with nq bs cs 2(4) obtain x v' where "escape_char e = Some x" "lex_string r0 = Some (v', r)"
          by (auto split: option.splits)
        with nq bs cs False 2(2) [of e r0 x v'] obtain pre where "r0 = pre @ 0x22 # r" by auto
        with cs have "c # cs = (c # e # pre) @ 0x22 # r" by simp
        then show ?thesis by blast
      next
        case u: True
        with nq bs cs 2(4) obtain h1 h2 h3 h4 r' uu v' where
          r0: "r0 = h1 # h2 # h3 # h4 # r'" and "hex4 h1 h2 h3 h4 = Some uu"
          and "lex_string r' = Some (v', r)"
          by (auto split: list.splits option.splits)
        with nq bs cs u 2(1) [of e r0 h1 "h2 # h3 # h4 # r'" h2 "h3 # h4 # r'" h3 "h4 # r'" h4 r' uu v']
        obtain pre where "r' = pre @ 0x22 # r" by auto
        with cs r0 have "c # cs = (c # e # h1 # h2 # h3 # h4 # pre) @ 0x22 # r" by simp
        then show ?thesis by blast
      qed
    qed
  qed
qed

lemma last_takeWhile_digit:
  "takeWhile is_digit r \<noteq> [] \<Longrightarrow> is_digit (last (takeWhile is_digit r))"
  by (metis last_in_set set_takeWhileD)

lemma lex_sign_text: "lex_sign s = (a, r) \<Longrightarrow> s = a @ r"
  by (auto simp: lex_sign_def split: list.splits if_splits)

lemma lex_exp_sign_text: "lex_exp_sign s = (a, r) \<Longrightarrow> s = a @ r"
  by (auto simp: lex_exp_sign_def split: list.splits if_splits)

lemma is_digit_zero: "is_digit 0x30"
  by (simp add: is_digit_def)

lemma lex_int_text:
  "lex_int s = Some (a, r) \<Longrightarrow> s = a @ r \<and> a \<noteq> [] \<and> is_digit (last a)"
  by (auto simp: lex_int_def is_digit_zero last_takeWhile_digit split: list.splits if_splits)

lemma lex_frac_text:
  "lex_frac s = Some (a, r) \<Longrightarrow> s = a @ r \<and> (a \<noteq> [] \<longrightarrow> is_digit (last a))"
  by (auto simp: lex_frac_def last_takeWhile_digit split: list.splits if_splits)

lemma lex_exp_text:
  "lex_exp s = Some (a, r) \<Longrightarrow> s = a @ r \<and> (a \<noteq> [] \<longrightarrow> is_digit (last a))"
  by (auto simp: lex_exp_def last_takeWhile_digit dest!: lex_exp_sign_text
      split: list.splits if_splits prod.splits)

lemma lex_number_text:
  assumes "lex_number s = Some (n, r)"
  shows "s = n @ r \<and> n \<noteq> [] \<and> is_digit (last n)"
proof -
  from assms obtain sg s1 i s2 f s3 e where
    p: "lex_sign s = (sg, s1)" "lex_int s1 = Some (i, s2)" "lex_frac s2 = Some (f, s3)"
    "lex_exp s3 = Some (e, r)" and n: "n = sg @ i @ f @ e"
    by (auto simp: lex_number_def split: prod.splits option.splits)
  from p have "s = sg @ s1" "s1 = i @ s2 \<and> i \<noteq> [] \<and> is_digit (last i)"
    "s2 = f @ s3 \<and> (f \<noteq> [] \<longrightarrow> is_digit (last f))"
    "s3 = e @ r \<and> (e \<noteq> [] \<longrightarrow> is_digit (last e))"
    by (simp_all add: lex_sign_text lex_int_text lex_frac_text lex_exp_text)
  with n show ?thesis by (cases "e = []"; cases "f = []") auto
qed


lemma map_option_Some_D: "map_option f x = Some y \<Longrightarrow> \<exists>z. x = Some z"
  by (cases x) auto

lemma tokenize_last:
  "tokenize s = Some ts \<Longrightarrow> s \<noteq> [] \<Longrightarrow>
   is_json_ws (last s) \<or> is_digit (last s)
   \<or> last s \<in> {0x7B, 0x7D, 0x5B, 0x5D, 0x3A, 0x2C, 0x22, 0x65, 0x6C}"
  (is "_ \<Longrightarrow> _ \<Longrightarrow> ?E (last s)")
proof (induction s arbitrary: ts rule: tokenize.induct)
  case 1
  then show ?case by simp
next
  case (2 c cs)
  note tok = \<open>tokenize (c # cs) = Some ts\<close>
  have step: "?E (last (c # cs))"
    if "c # cs = t @ r" "t \<noteq> []" "?E (last t)" "r \<noteq> [] \<Longrightarrow> ?E (last r)" for t r
    using that by (cases "r = []") auto
  consider (skip) "is_json_ws c"
    | (punct) "\<not> is_json_ws c" "c \<in> {0x7B, 0x7D, 0x5B, 0x5D, 0x3A, 0x2C}"
    | (str) "\<not> is_json_ws c" "c \<notin> {0x7B, 0x7D, 0x5B, 0x5D, 0x3A, 0x2C}" "c = 0x22"
    | (num) "\<not> is_json_ws c" "c \<notin> {0x7B, 0x7D, 0x5B, 0x5D, 0x3A, 0x2C}" "c \<noteq> 0x22"
        "c = 0x2D \<or> is_digit c"
    | (lit) "\<not> is_json_ws c" "c \<notin> {0x7B, 0x7D, 0x5B, 0x5D, 0x3A, 0x2C}" "c \<noteq> 0x22"
        "\<not> (c = 0x2D \<or> is_digit c)"
    by blast
  then show ?case
  proof cases
    case skip
    with tok have "tokenize cs = Some ts" by simp
    with skip 2(1) have "cs \<noteq> [] \<Longrightarrow> ?E (last cs)" by simp
    with skip step [of "[c]" cs] show ?thesis by simp
  next
    case punct
    with tok obtain ts' where t: "tokenize cs = Some ts'"
      by (auto dest: map_option_Some_D)
    with punct 2(2-7) [of ts'] have "cs \<noteq> [] \<Longrightarrow> ?E (last cs)" by auto
    with punct step [of "[c]" cs] show ?thesis by auto
  next
    case str
    with tok obtain v r ts' where x: "lex_string cs = Some (v, r)" and t: "tokenize r = Some ts'"
      by (auto split: option.splits dest: map_option_Some_D)
    from lex_string_quote [OF x] obtain pre where cs: "cs = pre @ 0x22 # r" by blast
    have "r \<noteq> [] \<Longrightarrow> ?E (last r)"
      using 2(8) [of "(v, r)" v r ts'] str x t by simp
    with cs step [of "c # pre @ [0x22]" r] show ?thesis by simp
  next
    case num
    with tok obtain n r ts' where x: "lex_number (c # cs) = Some (n, r)"
      and t: "tokenize r = Some ts'"
      by (auto split: option.splits dest: map_option_Some_D)
    from lex_number_text [OF x] have n: "c # cs = n @ r" "n \<noteq> []" "is_digit (last n)"
      by simp_all
    have "r \<noteq> [] \<Longrightarrow> ?E (last r)"
      using 2(9) [of "(n, r)" n r ts'] num x t by simp
    with n step [of n r] show ?thesis by simp
  next
    case lit
    show ?thesis
    proof (cases "strip_prefix (js ''true'') (c # cs)")
      case (Some r)
      with lit tok obtain ts' where t: "tokenize r = Some ts'"
        by (auto dest: map_option_Some_D)
      have "r \<noteq> [] \<Longrightarrow> ?E (last r)"
        using 2(12) [of r ts'] lit Some t by simp
      moreover from Some have "c # cs = js ''true'' @ r"
        by (simp only: strip_prefix_Some_iff)
      ultimately show ?thesis
        using step [of "js ''true''" r] by (simp add: js_def)
    next
      case tr: None
      show ?thesis
      proof (cases "strip_prefix (js ''false'') (c # cs)")
        case (Some r)
        with lit tr tok obtain ts' where t: "tokenize r = Some ts'"
          by (auto dest: map_option_Some_D)
        have "r \<noteq> [] \<Longrightarrow> ?E (last r)"
          using 2(11) [of r ts'] lit tr Some t by simp
        moreover from Some have "c # cs = js ''false'' @ r"
          by (simp only: strip_prefix_Some_iff)
        ultimately show ?thesis
          using step [of "js ''false''" r] by (simp add: js_def)
      next
        case fa: None
        show ?thesis
        proof (cases "strip_prefix (js ''null'') (c # cs)")
          case (Some r)
          with lit tr fa tok obtain ts' where t: "tokenize r = Some ts'"
            by (auto dest: map_option_Some_D)
          have "r \<noteq> [] \<Longrightarrow> ?E (last r)"
            using 2(10) [of r ts'] lit tr fa Some t by simp
          moreover from Some have "c # cs = js ''null'' @ r"
            by (simp only: strip_prefix_Some_iff)
          ultimately show ?thesis
            using step [of "js ''null''" r] by (simp add: js_def)
        next
          case None
          with lit tr fa tok show ?thesis by simp
        qed
      qed
    qed
  qed
qed


lemma trim_core:
  assumes "list_all is_js_whitespace w1" and "list_all is_js_whitespace w2"
    and "m \<noteq> []" and "\<not> is_js_whitespace (hd m)" and "\<not> is_js_whitespace (last m)"
  shows "trim (w1 @ m @ w2) = m"
proof -
  have "dropWhile is_js_whitespace (w1 @ m @ w2) = dropWhile is_js_whitespace (m @ w2)"
    using assms(1) by (intro dropWhile_append2) (simp add: list_all_iff)
  also have "\<dots> = m @ w2"
    using assms(3,4) by (cases m) auto
  finally have 1: "dropWhile is_js_whitespace (w1 @ m @ w2) = m @ w2" .
  have "dropWhile is_js_whitespace (rev w2 @ rev m) = dropWhile is_js_whitespace (rev m)"
    using assms(2) by (intro dropWhile_append2) (simp add: list_all_iff)
  also have "\<dots> = rev m"
    using assms(3,5) by (cases m rule: rev_cases) auto
  finally show ?thesis
    by (simp add: trim_def 1)
qed

lemma json_core_decomp:
  assumes "\<not> list_all is_json_ws p"
  shows "\<exists>a core b. p = a @ core @ b \<and> list_all is_json_ws a \<and> list_all is_json_ws b
           \<and> core \<noteq> [] \<and> \<not> is_json_ws (hd core) \<and> \<not> is_json_ws (last core)"
proof -
  define a where "a = takeWhile is_json_ws p"
  define q where "q = dropWhile is_json_ws p"
  define b where "b = rev (takeWhile is_json_ws (rev q))"
  define core where "core = rev (dropWhile is_json_ws (rev q))"
  have p: "p = a @ q" by (simp add: a_def q_def)
  have wa: "list_all is_json_ws a"
    by (auto simp: a_def list_all_iff dest: set_takeWhileD)
  have q: "q \<noteq> []" using assms by (auto simp: q_def list_all_iff)
  then have hq: "\<not> is_json_ws (hd q)"
    unfolding q_def by (rule hd_dropWhile)
  have qcb: "q = core @ b"
  proof -
    have "rev q = rev b @ rev core" by (simp add: b_def core_def)
    then have "rev (rev q) = rev (rev b @ rev core)" by simp
    then show ?thesis by simp
  qed
  have wb: "list_all is_json_ws b"
    by (auto simp: b_def list_all_iff dest: set_takeWhileD)
  have core: "core \<noteq> []"
  proof
    assume "core = []"
    with qcb have "q = b" by simp
    with wb q have "is_json_ws (hd q)" by (cases q) auto
    with hq show False by simp
  qed
  then have d: "dropWhile is_json_ws (rev q) \<noteq> []" by (simp add: core_def)
  have "last core = hd (dropWhile is_json_ws (rev q))"
    using d by (simp add: core_def last_rev)
  with d have lc: "\<not> is_json_ws (last core)"
    by (simp add: hd_dropWhile)
  from qcb core hq have hc: "\<not> is_json_ws (hd core)" by simp
  from p qcb wa wb core hc lc show ?thesis by blast
qed

lemma parse_value_Nil: "parse_value [] = None"
  by (simp add: parse_value.simps)

lemma JSON_parse_shape:
  assumes "JSON_parse p = Some v"
  shows "\<exists>a core b. p = a @ core @ b \<and> list_all is_json_ws a \<and> list_all is_json_ws b
           \<and> core \<noteq> []
           \<and> hd core \<noteq> 0x60 \<and> \<not> is_js_whitespace (hd core) \<and> \<not> is_json_ws (hd core)
           \<and> last core \<noteq> 0x60 \<and> \<not> is_js_whitespace (last core) \<and> \<not> is_json_ws (last core)
           \<and> (\<forall>a' b'. list_all is_json_ws a' \<longrightarrow> list_all is_json_ws b' \<longrightarrow>
                  JSON_parse (a' @ core @ b') = Some v)"
proof -
  from assms obtain ts where ts: "tokenize p = Some ts" and pv: "parse_value ts = Some (v, [])"
    by (auto simp: JSON_parse_def split: option.splits if_splits)
  have "\<not> list_all is_json_ws p"
  proof
    assume "list_all is_json_ws p"
    then have "tokenize p = Some []" by (rule tokenize_ws)
    with ts pv show False by (simp add: parse_value_Nil)
  qed
  from json_core_decomp [OF this] obtain a core b where
    p: "p = a @ core @ b" and wa: "list_all is_json_ws a" and wb: "list_all is_json_ws b"
    and core: "core \<noteq> []" and hc: "\<not> is_json_ws (hd core)" and lc: "\<not> is_json_ws (last core)"
    by blast
  have tok: "tokenize (a' @ core @ b') = Some ts"
    if "list_all is_json_ws a'" "list_all is_json_ws b'" for a' b'
  proof -
    have "tokenize (a' @ core @ b') = tokenize (core @ b')"
      using that(1) by (rule tokenize_ws_prefix)
    also have "\<dots> = tokenize core" using that(2) by (rule tokenize_ws_suffix)
    also have "\<dots> = tokenize (core @ b)" using wb by (rule tokenize_ws_suffix [symmetric])
    also have "\<dots> = tokenize (a @ core @ b)" using wa by (rule tokenize_ws_prefix [symmetric])
    finally show ?thesis using p ts by simp
  qed
  then have parse: "JSON_parse (a' @ core @ b') = Some v"
    if "list_all is_json_ws a'" "list_all is_json_ws b'" for a' b'
    using that pv by (simp add: JSON_parse_def)
  have tc: "tokenize core = Some ts" using tok [of "[]" "[]"] by simp
  from core obtain c cs where ccs: "core = c # cs" by (cases core) auto
  with tc hc tokenize_first [of c cs ts]
  have "c \<in> {0x7B, 0x7D, 0x5B, 0x5D, 0x3A, 0x2C, 0x22, 0x2D, 0x74, 0x66, 0x6E} \<or> is_digit c"
    by simp
  then have "c \<noteq> 0x60 \<and> \<not> is_js_whitespace c"
    by (auto simp: is_js_whitespace_def is_digit_def)
  with ccs have first: "hd core \<noteq> 0x60" "\<not> is_js_whitespace (hd core)" by simp_all
  from tokenize_last [OF tc core] lc
  have "is_digit (last core) \<or> last core \<in> {0x7B, 0x7D, 0x5B, 0x5D, 0x3A, 0x2C, 0x22, 0x65, 0x6C}"
    by blast
  then have final: "last core \<noteq> 0x60" "\<not> is_js_whitespace (last core)"
    by (auto simp: is_js_whitespace_def is_digit_def)
  from p wa wb core first final hc lc parse show ?thesis by blast
qed


lemma replace_leading_fence_other:
  "s = [] \<or> hd s \<noteq> 0x60 \<Longrightarrow> replace_leading_fence s = s"
  by (cases s) (auto simp: replace_leading_fence_def js_def)

lemma replace_leading_fence_json:
  "replace_leading_fence (js ''```json'' @ r) = (if r \<noteq> [] \<and> hd r = 0x0A then tl r else r)"
  unfolding replace_leading_fence_def strip_prefix_append
  by (cases r) auto

lemma replace_trailing_fence_other:
  "s = [] \<or> last s \<noteq> 0x60 \<Longrightarrow> replace_trailing_fence s = s"
proof -
  assume a: "s = [] \<or> last s \<noteq> 0x60"
  have "strip_suffix (js ''```'') s = None"
  proof (cases "strip_suffix (js ''```'') s")
    case (Some r)
    then have "s = r @ js ''```''" by (simp only: strip_suffix_Some_iff)
    with a show ?thesis by (simp add: js_def)
  qed simp
  then show ?thesis by (simp add: replace_trailing_fence_def)
qed

lemma strip_suffix_append [simp]: "strip_suffix p (r @ p) = Some r"
  by (simp add: strip_suffix_Some_iff)

lemma strip_suffix_newline:
  "strip_suffix [0x0A] r = (if r \<noteq> [] \<and> last r = 0x0A then Some (butlast r) else None)"
proof (cases "strip_suffix [0x0A] r")
  case None
  have "\<not> (r \<noteq> [] \<and> last r = 0x0A)"
  proof
    assume "r \<noteq> [] \<and> last r = 0x0A"
    then have "r = butlast r @ [0x0A]" by (metis append_butlast_last_id)
    then have "strip_suffix [0x0A] r = Some (butlast r)" by (simp only: strip_suffix_Some_iff)
    with None show False by simp
  qed
  with None show ?thesis by simp
next
  case (Some x)
  then have "r = x @ [0x0A]" by (simp only: strip_suffix_Some_iff)
  with Some show ?thesis by simp
qed

lemma replace_trailing_fence_fence:
  "replace_trailing_fence (r @ js ''```'') = (if r \<noteq> [] \<and> last r = 0x0A then butlast r else r)"
  unfolding replace_trailing_fence_def strip_suffix_append
  by (simp add: strip_suffix_newline)

lemma leading_fence_shape:
  assumes "list_all is_json_ws a" and "core \<noteq> []" and "hd core \<noteq> 0x60"
    and "\<not> is_json_ws (hd core)"
    and "lead \<in> {[], js ''```json'', js ''```json'' @ [0x0A]}"
  shows "\<exists>a'. list_all is_json_ws a'
           \<and> replace_leading_fence ((if lead = [] then [] else lead @ a) @ core @ t)
               = a' @ core @ t"
proof -
  consider "lead = []" | "lead = js ''```json''" | "lead = js ''```json'' @ [0x0A]"
    using assms(5) by blast
  then show ?thesis
  proof cases
    case 1
    have "replace_leading_fence (core @ t) = core @ t"
      using assms(2,3) by (intro replace_leading_fence_other) simp
    with 1 show ?thesis by (intro exI [of _ "[]"]) simp
  next
    case 2
    have ne: "lead \<noteq> []" using 2 by (simp add: js_def)
    have eq: "replace_leading_fence (lead @ a @ core @ t)
        = (if hd (a @ core @ t) = 0x0A then tl (a @ core @ t) else a @ core @ t)"
      using assms(2) unfolding 2 by (simp add: replace_leading_fence_json)
    show ?thesis
    proof (cases a)
      case Nil
      have "hd core \<noteq> 0x0A" using assms(4) by (auto simp: is_json_ws_def)
      with Nil eq assms(2) ne show ?thesis by (intro exI [of _ "[]"]) simp
    next
      case (Cons x a0)
      show ?thesis
      proof (cases "x = 0x0A")
        case True
        with Cons eq assms(1) ne show ?thesis by (intro exI [of _ a0]) simp
      next
        case False
        with Cons eq assms(1) ne show ?thesis by (intro exI [of _ a]) simp
      qed
    qed
  next
    case 3
    have ne: "lead \<noteq> []" using 3 by (simp add: js_def)
    have "replace_leading_fence (js ''```json'' @ (0x0A # a @ core @ t)) = a @ core @ t"
      by (simp only: replace_leading_fence_json) simp
    with 3 ne assms(1) show ?thesis by (intro exI [of _ a]) simp
  qed
qed

lemma trailing_fence_shape:
  assumes "list_all is_json_ws b" and "core \<noteq> []" and "last core \<noteq> 0x60"
    and "\<not> is_json_ws (last core)"
    and "trail \<in> {[], js ''```'', 0x0A # js ''```''}"
  shows "\<exists>b'. list_all is_json_ws b'
           \<and> replace_trailing_fence (h @ core @ (if trail = [] then [] else b @ trail))
               = h @ core @ b'"
proof -
  consider "trail = []" | "trail = js ''```''" | "trail = 0x0A # js ''```''"
    using assms(5) by blast
  then show ?thesis
  proof cases
    case 1
    have "replace_trailing_fence (h @ core) = h @ core"
      using assms(2,3) by (intro replace_trailing_fence_other) simp
    with 1 show ?thesis by (intro exI [of _ "[]"]) simp
  next
    case 2
    have ne: "trail \<noteq> []" using 2 by (simp add: js_def)
    have eq: "replace_trailing_fence ((h @ core @ b) @ js ''```'')
        = (if last (h @ core @ b) = 0x0A then butlast (h @ core @ b) else h @ core @ b)"
      using assms(2) by (simp only: replace_trailing_fence_fence) simp
    show ?thesis
    proof (cases b rule: rev_cases)
      case Nil
      have "last core \<noteq> 0x0A" using assms(4) by (auto simp: is_json_ws_def)
      with Nil eq assms(2) ne 2 show ?thesis by (intro exI [of _ "[]"]) simp
    next
      case (snoc b0 x)
      show ?thesis
      proof (cases "x = 0x0A")
        case True
        with snoc eq assms(1) ne 2 show ?thesis
          by (intro exI [of _ b0]) (simp add: butlast_append)
      next
        case False
        with snoc eq assms(1) ne 2 show ?thesis by (intro exI [of _ b]) simp
      qed
    qed
  next
    case 3
    have ne: "trail \<noteq> []" using 3 by simp
    have "replace_trailing_fence ((h @ core @ b @ [0x0A]) @ js ''```'') = h @ core @ b"
      by (simp only: replace_trailing_fence_fence) (simp add: butlast_append)
    with 3 ne assms(1) show ?thesis by (intro exI [of _ b]) simp
  qed
qed


lemma cleanedJsonString_payload:
  assumes "JSON_parse p = Some v"
    and "list_all is_js_whitespace ws1" and "list_all is_js_whitespace ws2"
    and "lead \<in> {[], js ''```json'', js ''```json'' @ [0x0A]}"
    and "trail \<in> {[], js ''```'', 0x0A # js ''```''}"
  shows "JSON_parse (cleanedJsonString (ws1 @ lead @ p @ trail @ ws2)) = Some v
         \<and> replace_leading_fence (cleanedJsonString (ws1 @ lead @ p @ trail @ ws2))
             = cleanedJsonString (ws1 @ lead @ p @ trail @ ws2)
         \<and> replace_trailing_fence (cleanedJsonString (ws1 @ lead @ p @ trail @ ws2))
             = cleanedJsonString (ws1 @ lead @ p @ trail @ ws2)
         \<and> ws1 @ lead @ p @ trail @ ws2 \<noteq> []"
proof -
  from JSON_parse_shape [OF assms(1)] obtain a core b where
    p: "p = a @ core @ b" and wa: "list_all is_json_ws a" and wb: "list_all is_json_ws b"
    and core: "core \<noteq> []"
    and hc: "hd core \<noteq> 0x60" "\<not> is_js_whitespace (hd core)" "\<not> is_json_ws (hd core)"
    and lc: "last core \<noteq> 0x60" "\<not> is_js_whitespace (last core)" "\<not> is_json_ws (last core)"
    and parse: "\<And>a' b'. list_all is_json_ws a' \<Longrightarrow> list_all is_json_ws b' \<Longrightarrow>
                  JSON_parse (a' @ core @ b') = Some v"
    by blast
  define t where "t = (if trail = [] then [] else b @ trail)"
  define m where "m = (if lead = [] then [] else lead @ a) @ core @ t"
  define w1 where "w1 = ws1 @ (if lead = [] then a else [])"
  define w2 where "w2 = (if trail = [] then b else []) @ ws2"
  have raw: "ws1 @ lead @ p @ trail @ ws2 = w1 @ m @ w2"
    by (simp add: p t_def m_def w1_def w2_def)
  have jw: "list_all is_js_whitespace x" if "list_all is_json_ws x" for x
    using that by (auto simp: list_all_iff is_json_ws_imp_js)
  have w1: "list_all is_js_whitespace w1" using assms(2) jw [OF wa] by (simp add: w1_def)
  have w2: "list_all is_js_whitespace w2" using assms(3) jw [OF wb] by (simp add: w2_def)
  have m: "m \<noteq> []" using core by (simp add: m_def)
  have hd_lead: "hd lead = 0x60" if "lead \<noteq> []"
    using that assms(4) by (auto simp: js_def)
  have last_trail: "last trail = 0x60" if "trail \<noteq> []"
    using that assms(5) by (auto simp: js_def)
  have tick: "\<not> is_js_whitespace 0x60" by (simp add: is_js_whitespace_def)
  have hm: "\<not> is_js_whitespace (hd m)"
    using hc(2) core hd_lead tick by (cases "lead = []") (simp_all add: m_def)
  have lm: "\<not> is_js_whitespace (last m)"
    using lc(2) core last_trail tick by (cases "trail = []") (simp_all add: m_def t_def)
  have trim: "trim (ws1 @ lead @ p @ trail @ ws2) = m"
    unfolding raw using w1 w2 m hm lm by (rule trim_core)
  from leading_fence_shape [OF wa core hc(1) hc(3) assms(4), of t] obtain a' where
    wa': "list_all is_json_ws a'" and lead: "replace_leading_fence m = a' @ core @ t"
    by (auto simp: m_def)
  from trailing_fence_shape [OF wb core lc(1) lc(3) assms(5), of a'] obtain b' where
    wb': "list_all is_json_ws b'" and trail: "replace_trailing_fence (a' @ core @ t) = a' @ core @ b'"
    by (auto simp: t_def)
  have c: "cleanedJsonString (ws1 @ lead @ p @ trail @ ws2) = a' @ core @ b'"
    by (simp add: cleanedJsonString_def trim lead trail)
  have nt: "x \<noteq> 0x60" if "is_json_ws x" for x
    using that by (auto simp: is_json_ws_def)
  have "hd (a' @ core @ b') \<noteq> 0x60"
    using wa' core hc(1) nt by (cases a') auto
  then have 1: "replace_leading_fence (a' @ core @ b') = a' @ core @ b'"
    by (intro replace_leading_fence_other) simp
  have "last (a' @ core @ b') \<noteq> 0x60"
    using wb' core lc(1) nt by (cases b' rule: rev_cases) auto
  then have 2: "replace_trailing_fence (a' @ core @ b') = a' @ core @ b'"
    by (intro replace_trailing_fence_other) simp
  from core have 3: "ws1 @ lead @ p @ trail @ ws2 \<noteq> []" by (simp add: p)
  from parse [OF wa' wb'] 1 2 3 show ?thesis by (simp add: c)
qed

section \<open>Properties of the service functions\<close>

text \<open>The definitions a closed term is evaluated with.\<close>

lemmas json_eval =
  JSON_parse_def js_def is_json_ws_def is_digit_def escape_char_def object_of_members_def
  parse_value.simps parse_elements.simps parse_members.simps
  lex_number_def lex_sign_def lex_int_def lex_frac_def lex_exp_def lex_exp_sign_def

lemmas clean_eval =
  cleanedJsonString_def trim_def is_js_whitespace_def replace_leading_fence_def
  replace_trailing_fence_def strip_suffix_def

text \<open>
  C1, as the code has it: a reply made of a well-formed JSON text \<open>p\<close>, optionally after
  the marker \<open>```json\<close> (with or without a newline after it) and optionally before
  the marker \<open>```\<close> (with or without a newline before it), all between any white
  space, is answered by \<open>analyzeImage\<close> and \<open>getPromptSuggestions\<close> with the value
  \<open>JSON.parse\<close> gives for \<open>p\<close> itself; and replacing the markers once more leaves the
  cleaned string as it is.
\<close>

theorem fenced_json_reply:
  assumes "JSON_parse p = Some v"
    and "list_all is_js_whitespace ws1" and "list_all is_js_whitespace ws2"
    and "lead \<in> {[], js ''```json'', js ''```json'' @ [0x0A]}"
    and "trail \<in> {[], js ''```'', 0x0A # js ''```''}"
  shows "analyzeImage_response (Some (ws1 @ lead @ p @ trail @ ws2)) = Fulfilled v
         \<and> getPromptSuggestions_response (Some (ws1 @ lead @ p @ trail @ ws2)) = Fulfilled v
         \<and> replace_trailing_fence
              (replace_leading_fence (cleanedJsonString (ws1 @ lead @ p @ trail @ ws2)))
             = cleanedJsonString (ws1 @ lead @ p @ trail @ ws2)"
  using cleanedJsonString_payload [OF assms]
  by (simp add: analyzeImage_response_def analyzeImage_try_def
      getPromptSuggestions_response_def getPromptSuggestions_try_def)

theorem fenced_json_reply_witness:
  "analyzeImage_response (Some (js '' ```json'' @ [0x0A] @ js ''{} '' @ [0x0A] @ js ''```'' @ [0x0A]))
     = Fulfilled (JObject [])
   \<and> getPromptSuggestions_response
       (Some (js '' ```json'' @ [0x0A] @ js ''{} '' @ [0x0A] @ js ''```'' @ [0x0A]))
     = Fulfilled (JObject [])"
proof -
  have p: "JSON_parse (js ''{} '') = Some (JObject [])"
    by (simp add: json_eval)
  have w1: "list_all is_js_whitespace (js '' '')" and w2: "list_all is_js_whitespace [0x0A]"
    by (simp_all add: js_def is_js_whitespace_def)
  have l: "js ''```json'' @ [0x0A] \<in> {[], js ''```json'', js ''```json'' @ [0x0A]}"
    and t: "0x0A # js ''```'' \<in> {[], js ''```'', 0x0A # js ''```''}"
    by simp_all
  from fenced_json_reply [OF p w1 w2 l t] show ?thesis
    by (simp add: js_def)
qed

text \<open>
  C1 as stated also covers a leading marker with no language tag or with another one;
  the pattern of the code only matches \<open>```json\<close>. A reply whose payload \<open>{}\<close>
  stands after a bare marker, or after \<open>```javascript\<close>, is rejected, although
  \<open>{}\<close> parses.
\<close>

theorem bare_fence_counterexample:
  "JSON_parse (js ''{}'') = Some (JObject [])
   \<and> analyzeImage_response (Some (js ''```'' @ [0x0A] @ js ''{}'' @ [0x0A] @ js ''```''))
     = Rejected (js ''Failed to analyze image. The AI may not have been able to provide a structured response.'')
   \<and> getPromptSuggestions_response (Some (js ''```'' @ [0x0A] @ js ''{}'' @ [0x0A] @ js ''```''))
     = Rejected (js ''Failed to generate prompt suggestions.'')
   \<and> analyzeImage_response (Some (js ''```javascript'' @ [0x0A] @ js ''{}'' @ [0x0A] @ js ''```''))
     = Rejected (js ''Failed to analyze image. The AI may not have been able to provide a structured response.'')"
proof -
  have c: "cleanedJsonString (js ''```'' @ [0x0A] @ js ''{}'' @ [0x0A] @ js ''```'')
      = js ''```'' @ [0x0A] @ js ''{}''"
    by (simp add: clean_eval js_def)
  have n: "JSON_parse (js ''```'' @ [0x0A] @ js ''{}'') = None"
    by (simp add: json_eval)
  have c': "cleanedJsonString (js ''```javascript'' @ [0x0A] @ js ''{}'' @ [0x0A] @ js ''```'')
      = js ''```javascript'' @ [0x0A] @ js ''{}''"
    by (simp add: clean_eval js_def)
  have n': "JSON_parse (js ''```javascript'' @ [0x0A] @ js ''{}'') = None"
    by (simp add: json_eval)
  have p: "JSON_parse (js ''{}'') = Some (JObject [])"
    by (simp add: json_eval)
  have ne: "js ''```'' @ [0x0A] @ js ''{}'' @ [0x0A] @ js ''```'' \<noteq> []"
    "js ''```javascript'' @ [0x0A] @ js ''{}'' @ [0x0A] @ js ''```'' \<noteq> []"
    by (simp_all add: js_def)
  show ?thesis
    by (simp only: p analyzeImage_response_def analyzeImage_try_def
        getPromptSuggestions_response_def getPromptSuggestions_try_def c n c' n' ne
        option.case if_False sum.case simp_thms)
qed

text \<open>
  C2, as the code has it: a reply that is a well-formed JSON text is answered with the
  parsed value whatever its shape, and the only rejected replies are the empty one and
  those whose cleaned string \<open>JSON.parse\<close> refuses. No field is looked for.
\<close>

theorem valid_json_returned_unchecked:
  "(JSON_parse p = Some v \<longrightarrow>
      analyzeImage_response (Some p) = Fulfilled v
      \<and> getPromptSuggestions_response (Some p) = Fulfilled v)
   \<and> ((\<exists>m. analyzeImage_response (Some t) = Rejected m)
        \<longleftrightarrow> t = [] \<or> JSON_parse (cleanedJsonString t) = None)
   \<and> ((\<exists>m. getPromptSuggestions_response (Some t) = Rejected m)
        \<longleftrightarrow> t = [] \<or> JSON_parse (cleanedJsonString t) = None)"
proof -
  have "analyzeImage_response (Some p) = Fulfilled v
      \<and> getPromptSuggestions_response (Some p) = Fulfilled v" if "JSON_parse p = Some v"
    using cleanedJsonString_payload [OF that, of "[]" "[]" "[]" "[]"]
    by (simp add: analyzeImage_response_def analyzeImage_try_def
        getPromptSuggestions_response_def getPromptSuggestions_try_def)
  moreover have "(\<exists>m. analyzeImage_response (Some t) = Rejected m)
        \<longleftrightarrow> t = [] \<or> JSON_parse (cleanedJsonString t) = None"
    by (cases "JSON_parse (cleanedJsonString t)")
      (simp_all add: analyzeImage_response_def analyzeImage_try_def)
  moreover have "(\<exists>m. getPromptSuggestions_response (Some t) = Rejected m)
        \<longleftrightarrow> t = [] \<or> JSON_parse (cleanedJsonString t) = None"
    by (cases "JSON_parse (cleanedJsonString t)")
      (simp_all add: getPromptSuggestions_response_def getPromptSuggestions_try_def)
  ultimately show ?thesis by blast
qed

theorem valid_json_returned_unchecked_witness:
  "analyzeImage_response (Some (js ''{}'')) = Fulfilled (JObject [])
   \<and> getPromptSuggestions_response (Some (js ''{}'')) = Fulfilled (JObject [])
   \<and> \<not> has_fields analysisSchema_required (JObject [])
   \<and> \<not> has_fields suggestionsSchema_required (JObject [])"
proof -
  have p: "JSON_parse (js ''{}'') = Some (JObject [])"
    by (simp add: json_eval)
  from valid_json_returned_unchecked [of "js ''{}''" "JObject []" "[]"] p show ?thesis
    by (simp add: analysisSchema_required_def suggestionsSchema_required_def)
qed

text \<open>
  C2 as stated fails: an analysis reply with \<open>title\<close>, \<open>summary\<close> and
  \<open>detected_objects\<close> but no \<open>color_palette\<close> is returned as a value.
\<close>

theorem missing_color_palette_counterexample:
  "analyzeImage_response
     (Some (js ''{'' @ [0x22] @ js ''title'' @ [0x22] @ js '':'' @ [0x22] @ js ''t'' @ [0x22]
            @ js '','' @ [0x22] @ js ''summary'' @ [0x22] @ js '':'' @ [0x22] @ js ''s'' @ [0x22]
            @ js '','' @ [0x22] @ js ''detected_objects'' @ [0x22] @ js '':[]}''))
     = Fulfilled (JObject [(js ''title'', JString (js ''t'')), (js ''summary'', JString (js ''s'')),
                           (js ''detected_objects'', JArray [])])
   \<and> \<not> has_fields analysisSchema_required
         (JObject [(js ''title'', JString (js ''t'')), (js ''summary'', JString (js ''s'')),
                   (js ''detected_objects'', JArray [])])"
proof -
  have c: "cleanedJsonString (js ''{'' @ [0x22] @ js ''title'' @ [0x22] @ js '':'' @ [0x22] @ js ''t'' @ [0x22]
            @ js '','' @ [0x22] @ js ''summary'' @ [0x22] @ js '':'' @ [0x22] @ js ''s'' @ [0x22]
            @ js '','' @ [0x22] @ js ''detected_objects'' @ [0x22] @ js '':[]}'')
      = js ''{'' @ [0x22] @ js ''title'' @ [0x22] @ js '':'' @ [0x22] @ js ''t'' @ [0x22]
            @ js '','' @ [0x22] @ js ''summary'' @ [0x22] @ js '':'' @ [0x22] @ js ''s'' @ [0x22]
            @ js '','' @ [0x22] @ js ''detected_objects'' @ [0x22] @ js '':[]}''"
    by (simp add: clean_eval js_def)
  have p: "JSON_parse (js ''{'' @ [0x22] @ js ''title'' @ [0x22] @ js '':'' @ [0x22] @ js ''t'' @ [0x22]
            @ js '','' @ [0x22] @ js ''summary'' @ [0x22] @ js '':'' @ [0x22] @ js ''s'' @ [0x22]
            @ js '','' @ [0x22] @ js ''detected_objects'' @ [0x22] @ js '':[]}'')
      = Some (JObject [(js ''title'', JString (js ''t'')), (js ''summary'', JString (js ''s'')),
                       (js ''detected_objects'', JArray [])])"
    by (simp add: json_eval)
  have f: "\<not> has_fields analysisSchema_required
         (JObject [(js ''title'', JString (js ''t'')), (js ''summary'', JString (js ''s'')),
                   (js ''detected_objects'', JArray [])])"
    by (simp add: analysisSchema_required_def js_def)
  have ne: "js ''{'' @ [0x22] @ js ''title'' @ [0x22] @ js '':'' @ [0x22] @ js ''t'' @ [0x22]
            @ js '','' @ [0x22] @ js ''summary'' @ [0x22] @ js '':'' @ [0x22] @ js ''s'' @ [0x22]
            @ js '','' @ [0x22] @ js ''detected_objects'' @ [0x22] @ js '':[]}'' \<noteq> []"
    by (simp add: js_def)
  show ?thesis
    by (simp only: analyzeImage_response_def analyzeImage_try_def c p f ne
        option.case if_False sum.case simp_thms)
qed

text \<open>
  C3: on an absent or empty reply the \<open>try\<close> blocks of \<open>analyzeImage\<close> and
  \<open>getPromptSuggestions\<close> throw their empty-response error whatever \<open>JSON.parse\<close>
  would do (it is never called), and both functions are rejected.
\<close>

theorem empty_reply_rejected:
  assumes "rawText = None \<or> rawText = Some []"
  shows "analyzeImage_try parse rawText
           = Inl (Error (js ''Failed to analyze image. The AI returned an empty response.''))
         \<and> getPromptSuggestions_try parse rawText
           = Inl (Error (js ''Failed to generate prompt suggestions. The AI returned an empty response.''))
         \<and> analyzeImage_response rawText
           = Rejected (js ''Failed to analyze image. The AI may not have been able to provide a structured response.'')
         \<and> getPromptSuggestions_response rawText
           = Rejected (js ''Failed to generate prompt suggestions.'')"
  using assms
  by (auto simp: analyzeImage_try_def getPromptSuggestions_try_def analyzeImage_response_def
      getPromptSuggestions_response_def)

theorem empty_reply_rejected_witness:
  "analyzeImage_try (\<lambda>s. Some JNull) (Some [])
     = Inl (Error (js ''Failed to analyze image. The AI returned an empty response.''))
   \<and> getPromptSuggestions_try (\<lambda>s. Some JNull) None
     = Inl (Error (js ''Failed to generate prompt suggestions. The AI returned an empty response.''))
   \<and> analyzeImage_response (Some [])
     = Rejected (js ''Failed to analyze image. The AI may not have been able to provide a structured response.'')
   \<and> getPromptSuggestions_response None = Rejected (js ''Failed to generate prompt suggestions.'')"
  using empty_reply_rejected [of "Some []" "\<lambda>s. Some JNull"]
    empty_reply_rejected [of None "\<lambda>s. Some JNull"]
  by simp

text \<open>
  C5, as the code has it: \<open>extractTextFromImage\<close> is fulfilled with the raw reply as it
  is, and with the empty string for an absent reply; no step of the protocol is applied.
\<close>

theorem extractTextFromImage_raw:
  "extractTextFromImage_response (Some t) = Fulfilled \<lparr>text = t\<rparr>
   \<and> extractTextFromImage_response None = Fulfilled \<lparr>text = []\<rparr>"
  by (simp add: extractTextFromImage_response_def)

text \<open>
  C5 as stated fails: an absent and an empty reply are fulfilled, not rejected, and the
  white space around a reply is kept.
\<close>

theorem extractTextFromImage_counterexample:
  "extractTextFromImage_response None = Fulfilled \<lparr>text = []\<rparr>
   \<and> extractTextFromImage_response (Some []) = Fulfilled \<lparr>text = []\<rparr>
   \<and> extractTextFromImage_response (Some (js '' a '')) = Fulfilled \<lparr>text = js '' a ''\<rparr>
   \<and> trim (js '' a '') = js ''a''
   \<and> js '' a '' \<noteq> js ''a''"
  by (simp add: extractTextFromImage_response_def trim_def is_js_whitespace_def js_def)

text \<open>
  C8: the reply \<open>```json\<close>, newline, \<open>{"text":"hello\nworld"}\<close>, newline, \<open>```\<close>
  (backslash and \<open>n\<close> inside the JSON string) is cleaned to the JSON text between the
  markers and parsed to the object whose \<open>text\<close> is \<open>hello\<close>, a line feed (0x0A),
  \<open>world\<close>.
\<close>

theorem fenced_text_example:
  "cleanedJsonString
     (js ''```json'' @ [0x0A] @ js ''{'' @ [0x22] @ js ''text'' @ [0x22] @ js '':'' @ [0x22]
      @ js ''hello'' @ [0x5C] @ js ''nworld'' @ [0x22] @ js ''}'' @ [0x0A] @ js ''```'')
     = js ''{'' @ [0x22] @ js ''text'' @ [0x22] @ js '':'' @ [0x22]
       @ js ''hello'' @ [0x5C] @ js ''nworld'' @ [0x22] @ js ''}''
   \<and> analyzeImage_response
       (Some (js ''```json'' @ [0x0A] @ js ''{'' @ [0x22] @ js ''text'' @ [0x22] @ js '':'' @ [0x22]
              @ js ''hello'' @ [0x5C] @ js ''nworld'' @ [0x22] @ js ''}'' @ [0x0A] @ js ''```''))
     = Fulfilled (JObject [(js ''text'', JString (js ''hello'' @ [0x0A] @ js ''world''))])
   \<and> getPromptSuggestions_response
       (Some (js ''```json'' @ [0x0A] @ js ''{'' @ [0x22] @ js ''text'' @ [0x22] @ js '':'' @ [0x22]
              @ js ''hello'' @ [0x5C] @ js ''nworld'' @ [0x22] @ js ''}'' @ [0x0A] @ js ''```''))
     = Fulfilled (JObject [(js ''text'', JString (js ''hello'' @ [0x0A] @ js ''world''))])"
proof -
  have c: "cleanedJsonString
     (js ''```json'' @ [0x0A] @ js ''{'' @ [0x22] @ js ''text'' @ [0x22] @ js '':'' @ [0x22]
      @ js ''hello'' @ [0x5C] @ js ''nworld'' @ [0x22] @ js ''}'' @ [0x0A] @ js ''```'')
     = js ''{'' @ [0x22] @ js ''text'' @ [0x22] @ js '':'' @ [0x22]
       @ js ''hello'' @ [0x5C] @ js ''nworld'' @ [0x22] @ js ''}''"
    by (simp add: clean_eval js_def)
  have p: "JSON_parse (js ''{'' @ [0x22] @ js ''text'' @ [0x22] @ js '':'' @ [0x22]
       @ js ''hello'' @ [0x5C] @ js ''nworld'' @ [0x22] @ js ''}'')
     = Some (JObject [(js ''text'', JString (js ''hello'' @ [0x0A] @ js ''world''))])"
    by (simp add: json_eval)
  have ne: "js ''```json'' @ [0x0A] @ js ''{'' @ [0x22] @ js ''text'' @ [0x22] @ js '':'' @ [0x22]
      @ js ''hello'' @ [0x5C] @ js ''nworld'' @ [0x22] @ js ''}'' @ [0x0A] @ js ''```'' \<noteq> []"
    by (simp add: js_def)
  show ?thesis
    by (simp only: analyzeImage_response_def analyzeImage_try_def
        getPromptSuggestions_response_def getPromptSuggestions_try_def c p ne
        option.case if_False sum.case simp_thms)
qed

subsection \<open>The image part\<close>

lemma b64_index_char: "i < 64 \<Longrightarrow> b64_index (b64_char i) = Some i"
  by (auto simp: b64_char_def b64_index_def)

lemma b64_char_not_pad: "i < 64 \<Longrightarrow> b64_char i \<noteq> 0x3D"
  by (auto simp: b64_char_def)

lemma b64_char_not_comma: "i < 64 \<Longrightarrow> b64_char i \<noteq> 0x2C"
  by (auto simp: b64_char_def)

lemma unat_byte: "unat (a :: 8 word) < 256"
  using unsigned_less [of a] by simp

lemma byte_of_unat: "of_nat (unat a) = (a :: 8 word)"
  by simp

lemma div16_less: "(y::nat) < 256 \<Longrightarrow> y div 16 < 16"
  by (simp add: div_less_iff_less_mult)

lemma div64_less: "(y::nat) < 256 \<Longrightarrow> y div 64 < 4"
  by (simp add: div_less_iff_less_mult)

lemma div4_less: "(y::nat) < 256 \<Longrightarrow> y div 4 < 64"
  by (simp add: div_less_iff_less_mult)

lemma octet1_join: "(y::nat) < 256 \<Longrightarrow> x div 4 * 4 + (x mod 4 * 16 + y div 16) div 16 = x"
  by (simp add: div16_less)

lemma octet1_join_pad: "(x::nat) div 4 * 4 + (x mod 4 * 16) div 16 = x"
  by simp

lemma octet2_join: "(y::nat) < 256 \<Longrightarrow> (z::nat) < 256 \<Longrightarrow> (x mod 4 * 16 + y div 16) mod 16 * 16 + (y mod 16 * 4 + z div 64) div 4 = y"
  by (simp add: div16_less div64_less)

lemma octet2_join_pad: "(y::nat) < 256 \<Longrightarrow> (x mod 4 * 16 + y div 16) mod 16 * 16 + (y mod 16 * 4) div 4 = y"
  by (simp add: div16_less)

lemma octet3_join: "(z::nat) < 256 \<Longrightarrow> (y mod 16 * 4 + z div 64) mod 4 * 64 + z mod 64 = z"
  by (simp add: div64_less)

lemma sextet2_less: "(x::nat) < 256 \<Longrightarrow> y < 256 \<Longrightarrow> x mod 4 * 16 + y div 16 < 64"
proof -
  assume "x < 256" "y < 256"
  then have "y div 16 < 16" by (simp add: div16_less)
  moreover have "x mod 4 < 4" by simp
  ultimately show ?thesis by linarith
qed

lemma sextet3_less: "(x::nat) < 256 \<Longrightarrow> y < 256 \<Longrightarrow> x mod 16 * 4 + y div 64 < 64"
proof -
  assume "x < 256" "y < 256"
  then have "y div 64 < 4" by (simp add: div64_less)
  moreover have "x mod 16 < 16" by simp
  ultimately show ?thesis by linarith
qed

lemma sextet_pad_less: "(x::nat) mod 4 * 16 < 64" "(x::nat) mod 16 * 4 < 64" "x mod 64 < 64"
proof -
  have "x mod 4 < 4" "x mod 16 < 16" by simp_all
  then show "x mod 4 * 16 < 64" "x mod 16 * 4 < 64" by linarith+
  show "x mod 64 < 64" by simp
qed


lemma base64_decode_quad:
  assumes "b64_index c1 = Some i1" and "b64_index c2 = Some i2" and "b64_index c3 = Some i3"
    and "b64_index c4 = Some i4" and "c3 \<noteq> 0x3D" and "c4 \<noteq> 0x3D"
  shows "base64_decode (c1 # c2 # c3 # c4 # r)
     = map_option
         (\<lambda>bs. of_nat (i1 * 4 + i2 div 16) # of_nat (i2 mod 16 * 16 + i3 div 4)
                # of_nat (i3 mod 4 * 64 + i4) # bs)
         (base64_decode r)"
  using assms by simp

lemma base64_decode_encode: "base64_decode (base64_encode bs) = Some bs"
proof (induction bs rule: base64_encode.induct)
  case 1
  show ?case by simp
next
  case (2 a)
  have a: "unat a < 256" by (rule unat_byte)
  have "base64_decode (base64_encode [a])
      = Some [of_nat (unat a div 4 * 4 + (unat a mod 4 * 16) div 16)]"
    by (simp add: b64_index_char div4_less [OF a] sextet_pad_less)
  then show ?case by (simp only: octet1_join_pad byte_of_unat)
next
  case (3 a b)
  have a: "unat a < 256" and b: "unat b < 256" by (rule unat_byte)+
  have "base64_decode (base64_encode [a, b])
      = Some [of_nat (unat a div 4 * 4 + (unat a mod 4 * 16 + unat b div 16) div 16),
              of_nat ((unat a mod 4 * 16 + unat b div 16) mod 16 * 16 + (unat b mod 16 * 4) div 4)]"
    by (simp add: b64_index_char b64_char_not_pad div4_less [OF a] sextet2_less [OF a b]
        sextet_pad_less)
  then show ?case
    by (simp only: octet1_join [OF b] octet2_join_pad [OF b] byte_of_unat)
next
  case (4 a b c r)
  have a: "unat a < 256" and b: "unat b < 256" and c: "unat c < 256" by (rule unat_byte)+
  have "base64_decode (base64_encode (a # b # c # r))
      = map_option
         (\<lambda>bs. of_nat (unat a div 4 * 4 + (unat a mod 4 * 16 + unat b div 16) div 16)
              # of_nat ((unat a mod 4 * 16 + unat b div 16) mod 16 * 16
                        + (unat b mod 16 * 4 + unat c div 64) div 4)
              # of_nat ((unat b mod 16 * 4 + unat c div 64) mod 4 * 64 + unat c mod 64) # bs)
         (base64_decode (base64_encode r))"
    unfolding base64_encode.simps append_Cons append_Nil
    by (rule base64_decode_quad)
      (simp_all add: b64_index_char b64_char_not_pad div4_less [OF a] sextet2_less [OF a b]
        sextet3_less [OF b c] sextet_pad_less)
  then show ?case
    by (simp only: 4 octet1_join [OF b] octet2_join [OF b c] octet3_join [OF c]
        byte_of_unat option.map)
qed

lemma base64_encode_no_comma: "0x2C \<notin> set (base64_encode bs)"
proof (induction bs rule: base64_encode.induct)
  case 1
  show ?case by simp
next
  case (2 a)
  have a: "unat a < 256" by (rule unat_byte)
  show ?case
    using b64_char_not_comma [OF div4_less [OF a]]
      b64_char_not_comma [OF sextet_pad_less(1) [of "unat a"]]
    by simp
next
  case (3 a b)
  have a: "unat a < 256" and b: "unat b < 256" by (rule unat_byte)+
  show ?case
    using b64_char_not_comma [OF div4_less [OF a]]
      b64_char_not_comma [OF sextet2_less [OF a b]]
      b64_char_not_comma [OF sextet_pad_less(2) [of "unat b"]]
    by simp
next
  case (4 a b c r)
  have a: "unat a < 256" and b: "unat b < 256" and c: "unat c < 256" by (rule unat_byte)+
  show ?case
    using 4 b64_char_not_comma [OF div4_less [OF a]]
      b64_char_not_comma [OF sextet2_less [OF a b]]
      b64_char_not_comma [OF sextet3_less [OF b c]]
      b64_char_not_comma [OF sextet_pad_less(3) [of "unat c"]]
    by simp
qed

lemma split_no_sep: "sep \<notin> set d \<Longrightarrow> split sep d = [d]"
  by (induction d) auto

lemma split_at_first: "sep \<notin> set h \<Longrightarrow> split sep (h @ sep # d) = h # split sep d"
  by (induction h) auto

lemma fileToGenerativePart_readable:
  assumes "0x2C \<notin> set (mediaType (type file))"
  shows "fileToGenerativePart mediaType True file
     = Fulfilled \<lparr>data = Some (base64_encode (bytes file)), mimeType = type file\<rparr>"
proof -
  have h: "0x2C \<notin> set (js ''data:'' @ mediaType (type file) @ js '';base64'')"
    using assms by (simp add: js_def)
  have "js ''data:'' @ mediaType (type file) @ js '';base64,'' @ base64_encode (bytes file)
      = (js ''data:'' @ mediaType (type file) @ js '';base64'')
        @ 0x2C # base64_encode (bytes file)"
    by (simp add: js_def)
  then have "split 0x2C
        (js ''data:'' @ mediaType (type file) @ js '';base64,'' @ base64_encode (bytes file))
      = [js ''data:'' @ mediaType (type file) @ js '';base64'', base64_encode (bytes file)]"
    by (simp only: split_at_first [OF h] split_no_sep [OF base64_encode_no_comma])
  then show ?thesis
    by (simp add: fileToGenerativePart_def readAsDataURL_def second_def)
qed

text \<open>
  C9, as the code has it: for a file that is read, and whose media type as the engine
  writes it into the header of the data URL holds no comma, \<open>fileToGenerativePart\<close> is
  fulfilled with the base64 text of the file's bytes as \<open>data\<close>, and decoding that text
  gives the bytes back.
\<close>

theorem base64_payload_roundtrip:
  assumes "0x2C \<notin> set (mediaType (type file))"
  shows "fileToGenerativePart mediaType True file
           = Fulfilled \<lparr>data = Some (base64_encode (bytes file)), mimeType = type file\<rparr>
         \<and> base64_decode (base64_encode (bytes file)) = Some (bytes file)"
  using fileToGenerativePart_readable [of mediaType "file"] assms base64_decode_encode
  by simp

theorem base64_payload_roundtrip_witness:
  "fileToGenerativePart (\<lambda>t. t) True
       \<lparr>bytes = [0x89, 0x50, 0x4E, 0x47], type = js ''image/png''\<rparr>
     = Fulfilled \<lparr>data = Some (js ''iVBORw==''), mimeType = js ''image/png''\<rparr>
   \<and> base64_decode (js ''iVBORw=='') = Some [0x89, 0x50, 0x4E, 0x47]
   \<and> fileToGenerativePart (\<lambda>t. js ''application/octet-stream'') True
       \<lparr>bytes = [0x89, 0x50, 0x4E, 0x47], type = js ''a,c''\<rparr>
     = Fulfilled \<lparr>data = Some (js ''iVBORw==''), mimeType = js ''a,c''\<rparr>"
proof -
  have t: "0x2C \<notin> set ((\<lambda>t. t)
      (type \<lparr>bytes = [0x89, 0x50, 0x4E, 0x47 :: 8 word], type = js ''image/png''\<rparr>))"
    by (simp add: js_def)
  have o: "0x2C \<notin> set ((\<lambda>t. js ''application/octet-stream'')
      (type \<lparr>bytes = [0x89, 0x50, 0x4E, 0x47 :: 8 word], type = js ''a,c''\<rparr>))"
    by (simp add: js_def)
  have e: "base64_encode [0x89, 0x50, 0x4E, 0x47] = js ''iVBORw==''"
    by (simp add: b64_char_def js_def)
  from t o
    base64_payload_roundtrip
      [of "\<lambda>t. t" "\<lparr>bytes = [0x89, 0x50, 0x4E, 0x47], type = js ''image/png''\<rparr>"]
    base64_payload_roundtrip
      [of "\<lambda>t. js ''application/octet-stream''"
          "\<lparr>bytes = [0x89, 0x50, 0x4E, 0x47], type = js ''a,c''\<rparr>"]
  show ?thesis
    by (simp add: e del: base64_encode.simps)
qed

text \<open>
  C9 as stated, for every image blob, fails. The type \<open>image/png;a="x,y"\<close> is a MIME
  type with a quoted parameter; an engine writes it into the header as it is (it is also
  its own serialisation), so the text between the first two commas of the data URL is
  a piece of the header, not the base64 text of the bytes 1, 2, 3 (\<open>AQID\<close>), and it
  does not decode.
\<close>

theorem comma_in_type_counterexample:
  "fileToGenerativePart (\<lambda>t. t) True
       \<lparr>bytes = [1, 2, 3], type = js ''image/png;a='' @ [0x22] @ js ''x,y'' @ [0x22]\<rparr>
     = Fulfilled \<lparr>data = Some (js ''y'' @ [0x22] @ js '';base64''),
                  mimeType = js ''image/png;a='' @ [0x22] @ js ''x,y'' @ [0x22]\<rparr>
   \<and> base64_encode [1, 2, 3] = js ''AQID''
   \<and> base64_decode (js ''y'' @ [0x22] @ js '';base64'') = None"
  by (simp add: fileToGenerativePart_def readAsDataURL_def second_def js_def b64_char_def
      b64_index_def)

text \<open>
  C4, as the code has it: for a file that cannot be read the promise of
  \<open>fileToGenerativePart\<close> stays pending; it is never rejected, and it is pending exactly
  when the read fails.
\<close>

theorem unreadable_file_pending:
  "fileToGenerativePart mediaType False file = Pending
   \<and> fileToGenerativePart mediaType readable file \<noteq> Rejected e
   \<and> (fileToGenerativePart mediaType readable file = Pending \<longleftrightarrow> \<not> readable)"
  by (simp add: fileToGenerativePart_def readAsDataURL_def)

text \<open>C4 as stated fails: the promise for an unreadable file is not rejected.\<close>

theorem unreadable_file_counterexample:
  "fileToGenerativePart (\<lambda>t. t) False
     \<lparr>bytes = [0x89, 0x50, 0x4E, 0x47], type = js ''image/png''\<rparr> = Pending"
  by (simp add: fileToGenerativePart_def readAsDataURL_def)

section \<open>Properties of the application state\<close>

lemma promise_all_Rejected_Fulfilled:
  "promise_all second_first (Rejected e) (Fulfilled y) = Rejected e"
  by (simp add: promise_all_def)

lemma promise_all_Fulfilled_Rejected:
  "promise_all second_first (Fulfilled x) (Rejected e) = Rejected e"
  by (simp add: promise_all_def)

lemma handleAnalyze_settled_appState:
  "joined \<noteq> Pending \<Longrightarrow> appState (handleAnalyze_settled joined s) = Interactive"
  by (cases joined) (auto simp: handleAnalyze_settled_def)

lemma loading_has_image_step:
  "loading_has_image s \<Longrightarrow> loading_has_image (step s e)"
proof (cases e)
  case (ImageSelected f)
  then show ?thesis by (simp add: loading_has_image_def handleImageChange_def)
next
  case Reset
  then show ?thesis by (simp add: loading_has_image_def handleReset_def)
next
  case AnalyzeRequested
  assume "loading_has_image s"
  with AnalyzeRequested show ?thesis
    by (cases "imageFile s") (auto simp: loading_has_image_def handleAnalyze_start_def)
next
  case (AnalyzeSettled joined)
  assume "loading_has_image s"
  with AnalyzeSettled show ?thesis
    by (cases joined) (auto simp: loading_has_image_def handleAnalyze_settled_def)
qed

lemma loading_has_image_foldl:
  "loading_has_image s \<Longrightarrow> loading_has_image (foldl step s es)"
  by (induction es arbitrary: s) (simp_all add: loading_has_image_step)

lemma loading_has_image_initial: "loading_has_image App_initial"
  by (simp add: loading_has_image_def App_initial_def)

lemma results_stay_null_step:
  assumes "\<not> applies_results ev" and "analysisResult s = None" and "textResult s = None"
  shows "analysisResult (step s ev) = None \<and> textResult (step s ev) = None"
proof (cases ev)
  case (ImageSelected f)
  then show ?thesis by (simp add: handleImageChange_def)
next
  case Reset
  then show ?thesis by (simp add: handleReset_def)
next
  case AnalyzeRequested
  with assms(2,3) show ?thesis
    by (cases "imageFile s") (simp_all add: handleAnalyze_start_def)
next
  case (AnalyzeSettled joined)
  with assms show ?thesis
    by (cases joined) (simp_all add: handleAnalyze_settled_def)
qed

lemma results_stay_null:
  "list_all (\<lambda>ev. \<not> applies_results ev) es \<Longrightarrow>
   analysisResult s = None \<Longrightarrow> textResult s = None \<Longrightarrow>
   analysisResult (foldl step s es) = None \<and> textResult (foldl step s es) = None"
proof (induction es arbitrary: s)
  case Nil
  then show ?case by simp
next
  case (Cons ev es)
  from Cons.prems have "\<not> applies_results ev" and rest: "list_all (\<lambda>ev. \<not> applies_results ev) es"
    by simp_all
  from results_stay_null_step [OF this(1) Cons.prems(2,3)]
  have "analysisResult (step s ev) = None" "textResult (step s ev) = None" by simp_all
  from Cons.IH [OF rest this] show ?case by simp
qed

lemma handleAnalyze_start_results:
  "imageFile s = Some file \<Longrightarrow>
   analysisResult (fst (handleAnalyze_start s)) = None
   \<and> textResult (fst (handleAnalyze_start s)) = None"
  by (simp add: handleAnalyze_start_def)

lemma handleAnalyze_settled_Rejected:
  "error (handleAnalyze_settled (Rejected e) s)
     = Some (if e = [] then js ''An unknown error occurred.'' else e)
   \<and> analysisResult (handleAnalyze_settled (Rejected e) s) = analysisResult s
   \<and> textResult (handleAnalyze_settled (Rejected e) s) = textResult s"
  by (simp add: handleAnalyze_settled_def)

text \<open>
  C6, as the code has it: when one of the two joined calls of a run is rejected and the
  other is fulfilled, the continuation of the run, on whatever state \<open>s'\<close> it finds, sets
  the error to the rejected call's message (or the default for an empty one) and leaves
  \<open>analysisResult\<close> and \<open>textResult\<close> as they are: the fulfilled call's result is
  dropped. Both are null after it when the run started with an image selected and no
  fulfilled joined call of another run was settled between its start and its
  continuation (\<open>es\<close> are the transitions in between), and so in particular in a run
  with nothing in between.
\<close>

theorem failed_run_applies_no_result:
  assumes "(analysis = Rejected e \<and> txt = Fulfilled t) \<or> (analysis = Fulfilled v \<and> txt = Rejected e)"
    and "imageFile s = Some file"
    and "list_all (\<lambda>ev. \<not> applies_results ev) es"
  shows "error (handleAnalyze_settled (promise_all second_first analysis txt) s')
           = Some (if e = [] then js ''An unknown error occurred.'' else e)
         \<and> analysisResult (handleAnalyze_settled (promise_all second_first analysis txt) s')
           = analysisResult s'
         \<and> textResult (handleAnalyze_settled (promise_all second_first analysis txt) s')
           = textResult s'
         \<and> analysisResult (handleAnalyze_settled (promise_all second_first analysis txt)
              (foldl step (fst (handleAnalyze_start s)) es)) = None
         \<and> textResult (handleAnalyze_settled (promise_all second_first analysis txt)
              (foldl step (fst (handleAnalyze_start s)) es)) = None
         \<and> error (handleAnalyze second_first analysis txt s)
           = Some (if e = [] then js ''An unknown error occurred.'' else e)
         \<and> analysisResult (handleAnalyze second_first analysis txt s) = None
         \<and> textResult (handleAnalyze second_first analysis txt s) = None"
proof -
  from assms(1) have j: "promise_all second_first analysis txt = Rejected e"
    by (auto simp: promise_all_Rejected_Fulfilled promise_all_Fulfilled_Rejected)
  from handleAnalyze_start_results [OF assms(2)]
  have start: "analysisResult (fst (handleAnalyze_start s)) = None"
    "textResult (fst (handleAnalyze_start s)) = None"
    by simp_all
  from results_stay_null [OF assms(3) start]
  have between: "analysisResult (foldl step (fst (handleAnalyze_start s)) es) = None"
    "textResult (foldl step (fst (handleAnalyze_start s)) es) = None"
    by simp_all
  have run: "handleAnalyze second_first analysis txt s
      = handleAnalyze_settled (Rejected e) (fst (handleAnalyze_start s))"
    using assms(2) by (simp add: handleAnalyze_def j)
  show ?thesis
    unfolding j run
    using handleAnalyze_settled_Rejected [of e s']
      handleAnalyze_settled_Rejected [of e "foldl step (fst (handleAnalyze_start s)) es"]
      handleAnalyze_settled_Rejected [of e "fst (handleAnalyze_start s)"]
    by (simp only: between start simp_thms)
qed

theorem failed_run_applies_no_result_witness:
  "analysisResult
     (handleAnalyze_settled
        (promise_all False (Rejected (js ''Failed to analyze image.'')) (Fulfilled \<lparr>text = js ''abc''\<rparr>))
        (foldl step
           (fst (handleAnalyze_start
              (handleImageChange \<lparr>bytes = [1, 2, 3], type = js ''image/png''\<rparr> App_initial)))
           [Reset, ImageSelected \<lparr>bytes = [4], type = js ''image/png''\<rparr>, AnalyzeRequested,
            AnalyzeSettled (Rejected (js ''Failed to extract text from the image.''))]))
     = None
   \<and> textResult
     (handleAnalyze_settled
        (promise_all False (Rejected (js ''Failed to analyze image.'')) (Fulfilled \<lparr>text = js ''abc''\<rparr>))
        (foldl step
           (fst (handleAnalyze_start
              (handleImageChange \<lparr>bytes = [1, 2, 3], type = js ''image/png''\<rparr> App_initial)))
           [Reset, ImageSelected \<lparr>bytes = [4], type = js ''image/png''\<rparr>, AnalyzeRequested,
            AnalyzeSettled (Rejected (js ''Failed to extract text from the image.''))]))
     = None
   \<and> error
     (handleAnalyze False (Rejected (js ''Failed to analyze image.'')) (Fulfilled \<lparr>text = js ''abc''\<rparr>)
        (handleImageChange \<lparr>bytes = [1, 2, 3], type = js ''image/png''\<rparr> App_initial))
     = Some (js ''Failed to analyze image.'')
   \<and> analysisResult
     (handleAnalyze False (Rejected (js ''Failed to analyze image.'')) (Fulfilled \<lparr>text = js ''abc''\<rparr>)
        (handleImageChange \<lparr>bytes = [1, 2, 3], type = js ''image/png''\<rparr> App_initial))
     = None"
proof -
  have a: "(Rejected (js ''Failed to analyze image.'') = Rejected (js ''Failed to analyze image.'')
        \<and> Fulfilled \<lparr>text = js ''abc''\<rparr> = Fulfilled \<lparr>text = js ''abc''\<rparr>)
      \<or> (Rejected (js ''Failed to analyze image.'') = Fulfilled JNull
        \<and> Fulfilled \<lparr>text = js ''abc''\<rparr> = Rejected (js ''Failed to analyze image.''))"
    by simp
  have i: "imageFile (handleImageChange \<lparr>bytes = [1, 2, 3], type = js ''image/png''\<rparr> App_initial)
      = Some \<lparr>bytes = [1, 2, 3], type = js ''image/png''\<rparr>"
    by (simp add: handleImageChange_def)
  have n: "list_all (\<lambda>ev. \<not> applies_results ev)
      [Reset, ImageSelected \<lparr>bytes = [4], type = js ''image/png''\<rparr>, AnalyzeRequested,
       AnalyzeSettled (Rejected (js ''Failed to extract text from the image.''))]"
    by simp
  have m: "js ''Failed to analyze image.'' \<noteq> []"
    by (simp add: js_def)
  from failed_run_applies_no_result [OF a i n, of False App_initial] m show ?thesis
    by (simp only: if_False simp_thms)
qed

text \<open>
  C6 as stated, for every run, fails where runs overlap. An image is selected and
  analysed, then replaced (New, another image) and analysed again while the first run
  is in flight. The first run's joined call is fulfilled and its results are stored;
  then the second run's joined call is rejected, with one call failed and the other
  fulfilled. The error is set, and \<open>analysisResult\<close> and \<open>textResult\<close> are not null.
\<close>

theorem overlapping_runs_counterexample:
  "foldl step App_initial
     [ImageSelected \<lparr>bytes = [1, 2, 3], type = js ''image/png''\<rparr>, AnalyzeRequested, Reset,
      ImageSelected \<lparr>bytes = [4], type = js ''image/png''\<rparr>, AnalyzeRequested,
      AnalyzeSettled (promise_all False (Fulfilled JNull) (Fulfilled \<lparr>text = js ''abc''\<rparr>)),
      AnalyzeSettled
        (promise_all False (Rejected (js ''Failed to analyze image.''))
           (Fulfilled \<lparr>text = js ''def''\<rparr>))]
   = \<lparr>appState = Interactive, imageFile = Some \<lparr>bytes = [4], type = js ''image/png''\<rparr>,
      prompt = js ''Analyze this image'', analysisResult = Some JNull,
      textResult = Some \<lparr>text = js ''abc''\<rparr>,
      error = Some (js ''Failed to analyze image.'')\<rparr>"
  by (simp add: App_initial_def handleImageChange_def handleReset_def handleAnalyze_start_def
      handleAnalyze_settled_def promise_all_def js_def)

text \<open>
  C7: a run of \<open>handleAnalyze\<close> with an image selected whose joined call settles,
  fulfilled or rejected, ends in the state \<open>Interactive\<close>; and so does the continuation
  after the \<open>await\<close> on whatever state it finds.
\<close>

theorem handleAnalyze_settles_interactive:
  assumes "imageFile s = Some file"
    and "promise_all second_first analysis txt \<noteq> Pending"
  shows "appState (handleAnalyze second_first analysis txt s) = Interactive
         \<and> appState (handleAnalyze_settled (promise_all second_first analysis txt) s') = Interactive"
  using assms by (simp add: handleAnalyze_def handleAnalyze_settled_appState)

theorem handleAnalyze_settles_interactive_witness:
  "appState (handleAnalyze False (Fulfilled JNull) (Rejected (js ''Failed to extract text from the image.''))
      (handleImageChange \<lparr>bytes = [1, 2, 3], type = js ''image/png''\<rparr> App_initial)) = Interactive
   \<and> appState (handleAnalyze False (Fulfilled JNull) (Fulfilled \<lparr>text = []\<rparr>)
      (handleImageChange \<lparr>bytes = [1, 2, 3], type = js ''image/png''\<rparr> App_initial)) = Interactive"
  using
    handleAnalyze_settles_interactive
      [of "handleImageChange \<lparr>bytes = [1, 2, 3], type = js ''image/png''\<rparr> App_initial"
          "\<lparr>bytes = [1, 2, 3], type = js ''image/png''\<rparr>" False "Fulfilled JNull"
          "Rejected (js ''Failed to extract text from the image.'')"]
    handleAnalyze_settles_interactive
      [of "handleImageChange \<lparr>bytes = [1, 2, 3], type = js ''image/png''\<rparr> App_initial"
          "\<lparr>bytes = [1, 2, 3], type = js ''image/png''\<rparr>" False "Fulfilled JNull"
          "Fulfilled \<lparr>text = []\<rparr>"]
  by (simp add: handleImageChange_def promise_all_def)

text \<open>
  C10: \<open>loading_has_image\<close> (in the state \<open>Loading\<close> an image file is selected) holds
  initially, is kept by every transition, and so holds after every sequence of
  transitions; and with no image selected \<open>handleAnalyze\<close> leaves the state as it is
  and issues no call.
\<close>

theorem loading_has_image_invariant:
  "loading_has_image App_initial
   \<and> (loading_has_image s \<longrightarrow> loading_has_image (step s e))
   \<and> loading_has_image (foldl step App_initial es)
   \<and> (imageFile s = None \<longrightarrow>
        handleAnalyze_start s = (s, []) \<and> handleAnalyze second_first analysis txt s = s)"
  by (simp add: loading_has_image_initial loading_has_image_step loading_has_image_foldl
      handleAnalyze_start_def handleAnalyze_def)

theorem loading_has_image_invariant_witness:
  "loading_has_image
     (foldl step App_initial
        [ImageSelected \<lparr>bytes = [1, 2, 3], type = js ''image/png''\<rparr>, AnalyzeRequested, Reset,
         AnalyzeSettled (Rejected (js ''Failed to extract text from the image.''))])
   \<and> loading_has_image (step App_initial AnalyzeRequested)
   \<and> handleAnalyze_start App_initial = (App_initial, [])
   \<and> handleAnalyze False Pending Pending App_initial = App_initial"
  using loading_has_image_invariant
    [of App_initial AnalyzeRequested
        "[ImageSelected \<lparr>bytes = [1, 2, 3], type = js ''image/png''\<rparr>, AnalyzeRequested, Reset,
          AnalyzeSettled (Rejected (js ''Failed to extract text from the image.''))]"
        False Pending Pending]
  by (simp add: App_initial_def)

end
